theory Spec2Isabelle
  imports Complex_Main "HOL-Library.Sublist" "HOL-Library.Multiset"
begin

section \<open>Signals shared by the three workers of ktalk.py\<close>

text \<open>
  The workers of \<^verbatim>\<open>ktalk.py\<close> (SearchWorker, CompressionWorker, DeletionWorker) talk to
  the window through Qt signals. A run is modelled by the list of signals it emits, in the
  order of emission, together with what it did to the disk.

  Paths, names and file contents are \<open>string\<close>s. The texts of the messages built by the
  workers are Korean; they are kept apart by a datatype, one constructor per message the
  source builds:
  \<^item> \<open>Cancelled\<close> is the fixed text raised by \<^verbatim>\<open>CompressionWorker\<close> when it sees the flag;
  \<^item> \<open>ReadFailed p e\<close> is the text built in \<^verbatim>\<open>read_file\<close> from the path and \<^verbatim>\<open>str(e)\<close>;
  \<^item> \<open>DeleteFailed p e\<close> is the text built in \<^verbatim>\<open>DeletionWorker.run\<close>;
  \<^item> \<open>OtherFailure e\<close> is \<^verbatim>\<open>str(e)\<close> of any other exception caught by
    \<^verbatim>\<open>CompressionWorker.run\<close>.
\<close>

type_synonym path = string

datatype message =
    Cancelled
  | ReadFailed path string
  | DeleteFailed path string
  | OtherFailure string

text \<open>One search result per file: the match flag and the matched lines (number, text).\<close>

type_synonym search_result = "bool \<times> (nat \<times> string) list"

datatype payload =
    SearchResults "search_result list"
  | ArchivePath path
  | NoPayload

text \<open>
  \<open>Progress cur total timing\<close>: the \<^verbatim>\<open>progress\<close> signal. Search and compression emit two
  integers (\<open>timing = None\<close>); deletion adds percent, elapsed and remaining seconds.
  \<open>Finished\<close> and \<open>Error\<close> are the \<^verbatim>\<open>finished\<close> and \<^verbatim>\<open>error\<close> signals.
\<close>

datatype event =
    Progress nat nat "(real \<times> real \<times> real) option"
  | Finished payload
  | Error message

fun is_terminal :: "event \<Rightarrow> bool" where
  "is_terminal (Progress _ _ _) = False"
| "is_terminal (Finished _) = True"
| "is_terminal (Error _) = True"

fun is_progress :: "event \<Rightarrow> bool" where
  "is_progress (Progress _ _ _) = True"
| "is_progress _ = False"

fun current :: "event \<Rightarrow> nat" where
  "current (Progress cur _ _) = cur"
| "current _ = 0"

fun bounded :: "event \<Rightarrow> bool" where
  "bounded (Progress cur tot _) = (cur \<le> tot)"
| "bounded _ = False"

subsection \<open>The cancellation flag\<close>

text \<open>
  \<^verbatim>\<open>cancel()\<close> sets \<^verbatim>\<open>self._cancelled = True\<close> from the window's thread and nothing ever
  resets it. What the worker's thread sees is therefore fixed by the number of reads of
  the flag that still see \<^verbatim>\<open>False\<close>: \<open>None\<close> when the run is never cancelled,
  \<open>Some k\<close> when the reads numbered \<open>k, k+1, ...\<close> (from 0) see \<^verbatim>\<open>True\<close>.
\<close>

definition cancelled :: "nat option \<Rightarrow> nat \<Rightarrow> bool" where
  "cancelled c t = (case c of None \<Rightarrow> False | Some k \<Rightarrow> k \<le> t)"

section \<open>DeletionWorker\<close>

text \<open>
  The disk as \<^verbatim>\<open>os.remove\<close> sees it: a path is absent, or holds a file that can be
  removed, or holds one whose removal raises with the given text (permission denied, file
  in use). Removing an absent path raises as well.
\<close>

datatype file_status = Deletable | Undeletable string

type_synonym fsys = "path \<Rightarrow> file_status option"

definition os_remove :: "fsys \<Rightarrow> path \<Rightarrow> string + fsys" where
  "os_remove fs p =
     (case fs p of
        None \<Rightarrow> Inl ''No such file or directory''
      | Some (Undeletable e) \<Rightarrow> Inl e
      | Some Deletable \<Rightarrow> Inr (fs(p := None)))"

text \<open>Python's \<^verbatim>\<open>/\<close> raises on a zero divisor; no handler of the worker catches it.\<close>

datatype py_exception = ZeroDivisionError

definition py_truediv :: "real \<Rightarrow> real \<Rightarrow> py_exception + real" where
  "py_truediv a b = (if b = 0 then Inl ZeroDivisionError else Inr (a / b))"

text \<open>
  Lines 149 to 151 of the source:
  \<^verbatim>\<open>
  percent = (deleted / total) * 100
  avg = elapsed / deleted if deleted else 0
  remaining = avg * (total - deleted)
  \<close>
  The result is (percent, remaining), or the exception a division raised. Floating point
  rounding is not modelled: the values are reals.
\<close>

definition estimate :: "nat \<Rightarrow> nat \<Rightarrow> real \<Rightarrow> py_exception + (real \<times> real)" where
  "estimate deleted tot elapsed =
     (case py_truediv (real deleted) (real tot) of
        Inl x \<Rightarrow> Inl x
      | Inr q \<Rightarrow>
          (case (if deleted \<noteq> 0 then py_truediv elapsed (real deleted) else Inr 0) of
             Inl x \<Rightarrow> Inl x
           | Inr avg \<Rightarrow> Inr (q * 100, avg * real_of_int (int tot - int deleted))))"

text \<open>
  The percent, elapsed and remaining values of the progress signal emitted after removal
  number \<open>k\<close> (from 1), when no division raises.
\<close>

definition deletion_timing :: "(nat \<Rightarrow> real) \<Rightarrow> nat \<Rightarrow> nat \<Rightarrow> real \<times> real \<times> real" where
  "deletion_timing clock tot k =
     (real k / real tot * 100, clock k - clock 0,
      (clock k - clock 0) / real k * real_of_int (int tot - int k))"

text \<open>
  What a run of the deletion worker leaves behind: the signals in order, the disk, every
  call of \<^verbatim>\<open>os.remove\<close> with its outcome (\<open>None\<close> for success, \<open>Some e\<close> for the
  text of the exception), and the exception that escaped \<^verbatim>\<open>run\<close>, if one did.
\<close>

record del_result =
  signals :: "event list"
  disk :: fsys
  attempts :: "(path \<times> string option) list"
  uncaught :: "py_exception option"

text \<open>
  The loop of \<^verbatim>\<open>DeletionWorker.run\<close>, at index \<open>i\<close> of \<^verbatim>\<open>enumerate\<close>. Iteration \<open>i\<close>
  makes read number \<open>i\<close> of the flag. \<open>clock k\<close> is the value of call number \<open>k\<close> of
  \<^verbatim>\<open>time.time()\<close>: call 0 is \<^verbatim>\<open>start_time\<close>, and the iteration that removes file \<open>i\<close>
  makes call \<open>i + 1\<close>. Leaving the loop by exhaustion or by \<^verbatim>\<open>break\<close> reaches
  \<^verbatim>\<open>self.finished.emit()\<close>; the handler of a failed removal emits \<^verbatim>\<open>error\<close> and returns.
\<close>

fun deletion_loop ::
  "nat option \<Rightarrow> (nat \<Rightarrow> real) \<Rightarrow> nat \<Rightarrow> nat \<Rightarrow> fsys \<Rightarrow> path list \<Rightarrow> del_result" where
  "deletion_loop c clock tot i fs [] =
     \<lparr>signals = [Finished NoPayload], disk = fs, attempts = [], uncaught = None\<rparr>"
| "deletion_loop c clock tot i fs (file_path # rest) =
     (if cancelled c i then
        \<lparr>signals = [Finished NoPayload], disk = fs, attempts = [], uncaught = None\<rparr>
      else
        (case os_remove fs file_path of
           Inl e \<Rightarrow>
             \<lparr>signals = [Error (DeleteFailed file_path e)], disk = fs,
              attempts = [(file_path, Some e)], uncaught = None\<rparr>
         | Inr fs' \<Rightarrow>
             (let deleted = i + 1;
                  elapsed = clock (i + 1) - clock 0
              in case estimate deleted tot elapsed of
                   Inl x \<Rightarrow>
                     \<lparr>signals = [], disk = fs', attempts = [(file_path, None)],
                      uncaught = Some x\<rparr>
                 | Inr (percent, remaining) \<Rightarrow>
                     (let r = deletion_loop c clock tot (i + 1) fs' rest
                      in r\<lparr>signals :=
                             Progress deleted tot (Some (percent, elapsed, remaining))
                               # signals r,
                           attempts := (file_path, None) # attempts r\<rparr>))))"

definition deletion_run ::
  "nat option \<Rightarrow> (nat \<Rightarrow> real) \<Rightarrow> fsys \<Rightarrow> path list \<Rightarrow> del_result" where
  "deletion_run c clock fs files_to_delete =
     deletion_loop c clock (length files_to_delete) 0 fs files_to_delete"

section \<open>SearchWorker\<close>

subsection \<open>Strings as Python handles them\<close>

text \<open>
  \<^verbatim>\<open>str.lower()\<close> and \<^verbatim>\<open>str.rstrip()\<close> are not code of this repository, and what they
  do depends on the Unicode tables of the interpreter. They are parameters of the model:
  every function of the search takes \<open>lower\<close> and \<open>rstrip\<close>, the two functions on
  strings that the interpreter provides, and every fact about the search is proved for
  whatever they are.
\<close>

type_synonym str_fun = "string \<Rightarrow> string"

text \<open>\<^verbatim>\<open>a in b\<close> on strings: \<open>a\<close> occurs in \<open>b\<close> as a contiguous block.\<close>

fun py_in :: "string \<Rightarrow> string \<Rightarrow> bool" where
  "py_in a [] = (a = [])"
| "py_in a (x # xs) = (prefix a (x # xs) \<or> py_in a xs)"

text \<open>
  What the two functions do on a string made of ASCII characters only, where no table is
  needed: \<^verbatim>\<open>lower\<close> turns \<open>A..Z\<close> into \<open>a..z\<close> and leaves the rest, \<^verbatim>\<open>rstrip\<close> drops
  the trailing characters for which \<^verbatim>\<open>isspace\<close> holds (tab to carriage return, the four
  separators 28 to 31, the space). They stand for \<open>lower\<close> and \<open>rstrip\<close> where a run is
  evaluated on ASCII text.
\<close>

definition ascii_lower_char :: "char \<Rightarrow> char" where
  "ascii_lower_char ch =
     (let n = (of_char ch :: nat) in if 65 \<le> n \<and> n \<le> 90 then char_of (n + 32) else ch)"

definition ascii_lower :: str_fun where
  "ascii_lower s = map ascii_lower_char s"

definition ascii_is_space :: "char \<Rightarrow> bool" where
  "ascii_is_space ch =
     (let n = (of_char ch :: nat) in (9 \<le> n \<and> n \<le> 13) \<or> (28 \<le> n \<and> n \<le> 32))"

definition ascii_rstrip :: str_fun where
  "ascii_rstrip s = rev (dropWhile ascii_is_space (rev s))"

subsection \<open>The files a search reads\<close>

text \<open>
  What \<^verbatim>\<open>open(full_path, 'r', encoding='utf-8')\<close> and the iteration over the lines do
  for a path:
  \<^item> \<open>CannotOpen\<close>: \<^verbatim>\<open>open\<close> raises (missing file, no permission);
  \<^item> \<open>Text ls\<close>: the file decodes to the lines \<open>ls\<close>, then ends;
  \<^item> \<open>Broken ls\<close>: the iterator hands out the lines \<open>ls\<close> and raises when asked for
    the next one (bytes that are not UTF-8 further down the file, or a read error). A
    binary file that fails at once is \<open>Broken []\<close>.
\<close>

datatype text_file = CannotOpen | Text "string list" | Broken "string list"

text \<open>
  The inner loop, lines 57 to 61. \<open>t\<close> counts the reads of the flag made so far by the
  run, \<open>num\<close> is the line number. The result is the matched lines, the new count of
  reads, and whether the loop was left by \<^verbatim>\<open>break\<close>.
\<close>

fun scan_lines ::
  "str_fun \<Rightarrow> str_fun \<Rightarrow> nat option \<Rightarrow> string \<Rightarrow> nat \<Rightarrow> nat \<Rightarrow> string list \<Rightarrow> (nat \<times> string) list \<times> nat \<times> bool" where
  "scan_lines lower rstrip c search_term t num [] = ([], t, False)"
| "scan_lines lower rstrip c search_term t num (line # rest) =
     (if cancelled c t then ([], t + 1, True)
      else
        (case scan_lines lower rstrip c search_term (t + 1) (num + 1) rest of
           (ms, t', stopped) \<Rightarrow>
             (if py_in search_term (lower line) then (num, rstrip line) # ms else ms,
              t', stopped)))"

text \<open>
  The body of the outer loop for one file, lines 49 to 66. The name is tested first. The
  statement \<^verbatim>\<open>if line_matches: match = True\<close> stands inside \<^verbatim>\<open>try\<close>, after the
  \<^verbatim>\<open>with\<close> block: it runs when the lines ended or the loop was left by \<^verbatim>\<open>break\<close>, and is
  skipped when \<^verbatim>\<open>open\<close> or the iterator raised. \<^verbatim>\<open>except Exception: pass\<close> drops the
  exception; \<^verbatim>\<open>line_matches\<close> keeps what was appended before it.
\<close>

definition search_file ::
  "str_fun \<Rightarrow> str_fun \<Rightarrow> nat option \<Rightarrow> string \<Rightarrow> nat \<Rightarrow> (path \<Rightarrow> text_file) \<Rightarrow> path \<times> string \<Rightarrow> search_result \<times> nat" where
  "search_file lower rstrip c search_term t fs file =
     (case file of (full_path, file_name) \<Rightarrow>
        (let match = py_in search_term (lower file_name) in
         case fs full_path of
           CannotOpen \<Rightarrow> ((match, []), t)
         | Text ls \<Rightarrow>
             (case scan_lines lower rstrip c search_term t 1 ls of
                (line_matches, t', stopped) \<Rightarrow> ((match \<or> line_matches \<noteq> [], line_matches), t'))
         | Broken ls \<Rightarrow>
             (case scan_lines lower rstrip c search_term t 1 ls of
                (line_matches, t', stopped) \<Rightarrow>
                  if stopped then ((match \<or> line_matches \<noteq> [], line_matches), t')
                  else ((match, line_matches), t'))))"

text \<open>
  The outer loop, lines 46 to 67, at index \<open>i\<close>: the progress signals and the results
  appended. Every iteration reads the flag once before it touches the file.
\<close>

fun search_loop ::
  "str_fun \<Rightarrow> str_fun \<Rightarrow> nat option \<Rightarrow> string \<Rightarrow> (path \<Rightarrow> text_file) \<Rightarrow> nat \<Rightarrow> nat \<Rightarrow> nat \<Rightarrow> (path \<times> string) list
     \<Rightarrow> event list \<times> search_result list" where
  "search_loop lower rstrip c search_term fs tot i t [] = ([], [])"
| "search_loop lower rstrip c search_term fs tot i t (file # rest) =
     (if cancelled c t then ([], [])
      else
        (case search_file lower rstrip c search_term (t + 1) fs file of
           (res, t') \<Rightarrow>
             (case search_loop lower rstrip c search_term fs tot (i + 1) t' rest of
                (evs, results) \<Rightarrow> (Progress (i + 1) tot None # evs, res # results))))"

text \<open>
  \<^verbatim>\<open>SearchWorker(files, search_term).run()\<close>: the constructor lowers the term; the run
  ends with \<^verbatim>\<open>self.finished.emit(results)\<close> on every path.
\<close>

definition search_run ::
  "str_fun \<Rightarrow> str_fun \<Rightarrow> nat option \<Rightarrow> (path \<Rightarrow> text_file) \<Rightarrow> (path \<times> string) list \<Rightarrow> string \<Rightarrow> event list" where
  "search_run lower rstrip c fs files search_term =
     (case search_loop lower rstrip c (lower search_term) fs (length files) 0 0 files of
        (evs, results) \<Rightarrow> evs @ [Finished (SearchResults results)])"

text \<open>The results carried by the \<^verbatim>\<open>finished\<close> signal of a search.\<close>

fun results_of :: "event list \<Rightarrow> search_result list" where
  "results_of [] = []"
| "results_of (Finished (SearchResults rs) # _) = rs"
| "results_of (_ # evs) = results_of evs"

text \<open>
  \<^verbatim>\<open>search_finished\<close>, line 424: the entry of a file is \<^verbatim>\<open>results[i]\<close>, or
  \<^verbatim>\<open>(False, [])\<close> past the end of a list cut short; the item is shown when its flag is set.
\<close>

definition result_at :: "search_result list \<Rightarrow> nat \<Rightarrow> search_result" where
  "result_at results i = (if i < length results then results ! i else (False, []))"


subsection \<open>The file list the window hands to the search\<close>







subsection \<open>The search as the specification words it\<close>

text \<open>
  The matched lines of a list of lines, numbered from \<open>num\<close>, and the result of a file
  when nothing interrupts the scan: the reference the uncancelled run is compared with.
\<close>

fun matching_lines ::
  "str_fun \<Rightarrow> str_fun \<Rightarrow> string \<Rightarrow> nat \<Rightarrow> string list \<Rightarrow> (nat \<times> string) list" where
  "matching_lines lower rstrip search_term num [] = []"
| "matching_lines lower rstrip search_term num (line # rest) =
     (if py_in search_term (lower line) then [(num, rstrip line)] else [])
       @ matching_lines lower rstrip search_term (num + 1) rest"

definition file_result ::
  "str_fun \<Rightarrow> str_fun \<Rightarrow> string \<Rightarrow> (path \<Rightarrow> text_file) \<Rightarrow> path \<times> string \<Rightarrow> search_result" where
  "file_result lower rstrip search_term fs file =
     (case file of (full_path, file_name) \<Rightarrow>
        (case fs full_path of
           CannotOpen \<Rightarrow> (py_in search_term (lower file_name), [])
         | Text ls \<Rightarrow>
             (py_in search_term (lower file_name) \<or> matching_lines lower rstrip search_term 1 ls \<noteq> [],
              matching_lines lower rstrip search_term 1 ls)
         | Broken ls \<Rightarrow>
             (py_in search_term (lower file_name), matching_lines lower rstrip search_term 1 ls)))"

text \<open>
  What a search collects when the flag is seen set from read number \<open>k\<close> on, that is,
  when \<open>k\<close> reads still see it unset. A file is begun when a read is left for the check
  of the outer loop; each of its lines costs one more read. \<open>lines_of\<close> is the list of
  lines the iterator hands out, \<open>lines_read\<close> their number. A file all of whose lines
  are read in time gets its full result; the file whose scan is cut short gets the result
  of the lines inspected before the \<^verbatim>\<open>break\<close>, and it is the last one: the next check
  of the outer loop sees the flag.
\<close>

fun lines_read :: "text_file \<Rightarrow> nat" where
  "lines_read CannotOpen = 0"
| "lines_read (Text ls) = length ls"
| "lines_read (Broken ls) = length ls"

fun lines_of :: "text_file \<Rightarrow> string list" where
  "lines_of CannotOpen = []"
| "lines_of (Text ls) = ls"
| "lines_of (Broken ls) = ls"

definition interrupted_result ::
  "str_fun \<Rightarrow> str_fun \<Rightarrow> string \<Rightarrow> nat \<Rightarrow> (path \<Rightarrow> text_file) \<Rightarrow> path \<times> string
     \<Rightarrow> search_result" where
  "interrupted_result lower rstrip search_term n fs file =
     (case file of (full_path, file_name) \<Rightarrow>
        (py_in search_term (lower file_name)
           \<or> matching_lines lower rstrip search_term 1 (take n (lines_of (fs full_path))) \<noteq> [],
         matching_lines lower rstrip search_term 1 (take n (lines_of (fs full_path)))))"

fun collected ::
  "str_fun \<Rightarrow> str_fun \<Rightarrow> string \<Rightarrow> (path \<Rightarrow> text_file) \<Rightarrow> nat \<Rightarrow> (path \<times> string) list
     \<Rightarrow> search_result list" where
  "collected lower rstrip search_term fs k [] = []"
| "collected lower rstrip search_term fs k (file # rest) =
     (if k = 0 then []
      else if lines_read (fs (fst file)) < k then
        file_result lower rstrip search_term fs file
          # collected lower rstrip search_term fs (k - 1 - lines_read (fs (fst file))) rest
      else [interrupted_result lower rstrip search_term (k - 1) fs file])"

text \<open>
  Whether the read of a file raises when the scan is not interrupted. The lines the
  iterator hands out before it does are \<open>lines_of\<close>.
\<close>

fun read_fails :: "text_file \<Rightarrow> bool" where
  "read_fails CannotOpen = True"
| "read_fails (Text ls) = False"
| "read_fails (Broken ls) = True"

section \<open>CompressionWorker\<close>

text \<open>
  What surrounds a run of the compression worker:
  \<^item> \<open>reads p\<close>: what \<^verbatim>\<open>open(p, "rb")\<close> and \<^verbatim>\<open>f.read()\<close> give, the bytes or the text of
    the exception;
  \<^item> \<open>reader_saw_cancel j\<close>: the value of the flag read by \<^verbatim>\<open>read_file\<close> in the pool
    thread of task \<open>j\<close> (the tasks are numbered as submitted);
  \<^item> \<open>completion\<close>: the order in which \<^verbatim>\<open>as_completed\<close> yields the futures, as task
    numbers;
  \<^item> \<open>cancel_at\<close>: the flag as the reads of \<^verbatim>\<open>run\<close> itself see it;
  \<^item> \<open>zip_open\<close>: the text of the exception of \<^verbatim>\<open>zipfile.ZipFile(zip_path, 'w', ...)\<close>,
    if it raises;
  \<^item> \<open>zip_write k\<close>: the same for call number \<open>k\<close> of \<^verbatim>\<open>writestr\<close>.
\<close>

record comp_env =
  reads :: "path \<Rightarrow> string + string"
  reader_saw_cancel :: "nat \<Rightarrow> bool"
  completion :: "nat list"
  cancel_at :: "nat option"
  zip_open :: "string option"
  zip_write :: "nat \<Rightarrow> string option"

text \<open>\<^verbatim>\<open>read_file\<close>, lines 85 to 93: the exception raised, or the pair returned.\<close>

definition read_file ::
  "bool \<Rightarrow> (path \<Rightarrow> string + string) \<Rightarrow> path \<Rightarrow> string \<Rightarrow> message + (string \<times> string)" where
  "read_file saw_cancel rd full_path arcname =
     (if saw_cancel then Inl Cancelled
      else
        (case rd full_path of
           Inl e \<Rightarrow> Inl (ReadFailed full_path e)
         | Inr data \<Rightarrow> Inr (arcname, data)))"

text \<open>The outcome of the future of task \<open>j\<close>, as \<^verbatim>\<open>future.result()\<close> returns or raises it.\<close>

definition future_result ::
  "comp_env \<Rightarrow> (path \<times> string) list \<Rightarrow> nat \<Rightarrow> message + (string \<times> string)" where
  "future_result env files_to_compress j =
     read_file (reader_saw_cancel env j) (reads env)
       (fst (files_to_compress ! j)) (snd (files_to_compress ! j))"

text \<open>
  The loop over \<^verbatim>\<open>as_completed\<close>, lines 104 to 110. Iteration number \<open>cnt\<close> (the value of
  \<^verbatim>\<open>count\<close> on entry) makes read number \<open>cnt\<close> of the flag. The result is the progress signals and either the message
  of the exception that left the loop or the pairs appended to \<^verbatim>\<open>results\<close>.
\<close>

fun collect ::
  "nat option \<Rightarrow> (nat \<Rightarrow> message + (string \<times> string)) \<Rightarrow> nat \<Rightarrow> nat \<Rightarrow> nat list
     \<Rightarrow> event list \<times> (message + (string \<times> string) list)" where
  "collect c fut tot cnt [] = ([], Inr [])"
| "collect c fut tot cnt (j # js) =
     (if cancelled c cnt then ([], Inl Cancelled)
      else
        (case fut j of
           Inl m \<Rightarrow> ([], Inl m)
         | Inr result \<Rightarrow>
             (case collect c fut tot (cnt + 1) js of
                (evs, Inl m) \<Rightarrow> (Progress (cnt + 1) tot None # evs, Inl m)
              | (evs, Inr results) \<Rightarrow>
                  (Progress (cnt + 1) tot None # evs, Inr (result # results)))))"

text \<open>
  The loop inside the \<^verbatim>\<open>with zipfile.ZipFile\<close> block, lines 114 to 117, at read number
  \<open>t\<close> of the flag and call number \<open>k\<close> of \<^verbatim>\<open>writestr\<close>: the message of the exception
  that left the loop, if one did, and the entries written before it. The archive is a
  list of entries (name, bytes) in the order written; how the bytes are deflated is the
  library's business.
\<close>

fun write_entries ::
  "nat option \<Rightarrow> (nat \<Rightarrow> string option) \<Rightarrow> nat \<Rightarrow> nat \<Rightarrow> (string \<times> string) list
     \<Rightarrow> message option \<times> (string \<times> string) list" where
  "write_entries c zw t k [] = (None, [])"
| "write_entries c zw t k (entry # rest) =
     (if cancelled c t then (Some Cancelled, [])
      else
        (case zw k of
           Some e \<Rightarrow> (Some (OtherFailure e), [])
         | None \<Rightarrow>
             (case write_entries c zw (t + 1) (k + 1) rest of
                (r, written) \<Rightarrow> (r, entry # written))))"

text \<open>
  The signals of a run and the file it leaves at \<^verbatim>\<open>zip_path\<close>: \<open>None\<close> when the run
  never opened it, \<open>Some es\<close> when it did and the entries \<open>es\<close> were written. Leaving the
  \<^verbatim>\<open>with\<close> block by an exception closes the archive and leaves the file in place.
\<close>

record comp_result =
  emitted :: "event list"
  archive :: "(string \<times> string) list option"

text \<open>
  \<^verbatim>\<open>CompressionWorker.run\<close>, lines 95 to 120. After the loop over the futures the flag is
  read once more (line 111), then the archive is opened (line 113). Every exception is
  caught at line 119 and reported by the \<^verbatim>\<open>error\<close> signal.
\<close>

definition compression_run :: "comp_env \<Rightarrow> (path \<times> string) list \<Rightarrow> path \<Rightarrow> comp_result" where
  "compression_run env files_to_compress zip_path =
     (let tot = length files_to_compress;
          n = length (completion env)
      in case collect (cancel_at env) (future_result env files_to_compress) tot 0 (completion env) of
           (evs, Inl m) \<Rightarrow> \<lparr>emitted = evs @ [Error m], archive = None\<rparr>
         | (evs, Inr results) \<Rightarrow>
             if cancelled (cancel_at env) n then
               \<lparr>emitted = evs @ [Error Cancelled], archive = None\<rparr>
             else
               (case zip_open env of
                  Some e \<Rightarrow> \<lparr>emitted = evs @ [Error (OtherFailure e)], archive = None\<rparr>
                | None \<Rightarrow>
                    (case write_entries (cancel_at env) (zip_write env) (n + 1) 0 results of
                       (Some m, written) \<Rightarrow>
                         \<lparr>emitted = evs @ [Error m], archive = Some written\<rparr>
                     | (None, written) \<Rightarrow>
                         \<lparr>emitted = evs @ [Finished (ArchivePath zip_path)],
                          archive = Some written\<rparr>)))"

text \<open>The entry each pair of the input should give: its name and the bytes of its source.\<close>

definition expected_entries ::
  "(path \<Rightarrow> string + string) \<Rightarrow> (path \<times> string) list \<Rightarrow> (string \<times> string) list" where
  "expected_entries rd files_to_compress =
     map (\<lambda>(full_path, arcname). (arcname, projr (rd full_path))) files_to_compress"

section \<open>Traces of a run\<close>

text \<open>
  A well-formed trace: progress signals only, each with \<open>current \<le> total\<close>, their
  \<open>current\<close> values in non-decreasing order, then one terminal signal, which is last.
\<close>

definition trace_ok :: "event list \<Rightarrow> bool" where
  "trace_ok evs =
     (evs \<noteq> [] \<and> is_terminal (last evs) \<and> list_all bounded (butlast evs)
      \<and> sorted (map current (butlast evs)))"

section \<open>The window: which workers run\<close>

text \<open>
  The part of \<^verbatim>\<open>MainWindow\<close> that decides whether a worker starts: the enabled state of
  the four buttons that start one, the workers started whose terminal signal the window
  has not handled yet, and \<^verbatim>\<open>self.active_worker\<close>.
\<close>

datatype kind = Search | Compress | Delete

record window =
  search_button :: bool
  btn_compress :: bool
  btn_clear_all :: bool
  btn_clear_selected :: bool
  running :: "kind list"
  active_worker :: "kind option"

definition initial :: window where
  "initial =
     \<lparr>search_button = True, btn_compress = True, btn_clear_all = True,
      btn_clear_selected = True, running = [], active_worker = None\<rparr>"

text \<open>
  What the user does and what the workers send. The flag of a starting action says
  whether the slot gets past its early returns: for a search, that the stripped term is
  not empty; for a compression, that there are files, that the dialogs are accepted and
  that a path is chosen; for a deletion, that there are files and that the user confirms.
  \<open>ReturnPressed\<close> is the \<^verbatim>\<open>returnPressed\<close> signal of the search input, connected to
  \<^verbatim>\<open>start_search\<close> at line 187. \<open>Terminal k\<close> is the delivery of the terminal signal of a
  running worker of kind \<open>k\<close> to its slot.
\<close>

datatype action =
    ClickSearch bool
  | ReturnPressed bool
  | ClickCompress bool
  | ClickDeleteAll bool
  | ClickDeleteSelected bool
  | Terminal kind

definition start_search :: "window \<Rightarrow> bool \<Rightarrow> window" where
  "start_search w term_nonempty =
     (if \<not> term_nonempty then w
      else w\<lparr>search_button := False, running := Search # running w,
             active_worker := Some Search\<rparr>)"

definition compress_files :: "window \<Rightarrow> bool \<Rightarrow> window" where
  "compress_files w proceeds =
     (if \<not> proceeds then w
      else w\<lparr>btn_compress := False, running := Compress # running w,
             active_worker := Some Compress\<rparr>)"

definition start_deletion :: "window \<Rightarrow> window" where
  "start_deletion w =
     w\<lparr>btn_clear_all := False, btn_clear_selected := False, running := Delete # running w,
       active_worker := Some Delete\<rparr>"

text \<open>
  The slots of the terminal signals: \<^verbatim>\<open>search_finished\<close>; \<^verbatim>\<open>compression_finished\<close> and
  \<^verbatim>\<open>compression_error\<close>; \<^verbatim>\<open>deletion_finished\<close> and \<^verbatim>\<open>deletion_error\<close>. Each enables the
  buttons of its own kind again and clears \<^verbatim>\<open>active_worker\<close>.
\<close>

fun terminal_slot :: "kind \<Rightarrow> window \<Rightarrow> window" where
  "terminal_slot Search w =
     w\<lparr>search_button := True, running := remove1 Search (running w), active_worker := None\<rparr>"
| "terminal_slot Compress w =
     w\<lparr>btn_compress := True, running := remove1 Compress (running w), active_worker := None\<rparr>"
| "terminal_slot Delete w =
     w\<lparr>btn_clear_all := True, btn_clear_selected := True,
       running := remove1 Delete (running w), active_worker := None\<rparr>"

text \<open>A disabled button emits no \<^verbatim>\<open>clicked\<close> signal; the search input is never disabled.\<close>

fun step :: "window \<Rightarrow> action \<Rightarrow> window" where
  "step w (ClickSearch ne) = (if search_button w then start_search w ne else w)"
| "step w (ReturnPressed ne) = start_search w ne"
| "step w (ClickCompress ok) = (if btn_compress w then compress_files w ok else w)"
| "step w (ClickDeleteAll ok) = (if btn_clear_all w \<and> ok then start_deletion w else w)"
| "step w (ClickDeleteSelected ok) =
     (if btn_clear_selected w \<and> ok then start_deletion w else w)"
| "step w (Terminal k) = (if k \<in> set (running w) then terminal_slot k w else w)"

definition session :: "action list \<Rightarrow> window" where
  "session acts = foldl step initial acts"

text \<open>
  What the disabled buttons do ensure: at most one compression worker and at most one
  deletion worker at a time, and none of a kind whose button is enabled.
\<close>

definition own_kind_excluded :: "window \<Rightarrow> bool" where
  "own_kind_excluded w =
     (count_list (running w) Compress \<le> 1 \<and> count_list (running w) Delete \<le> 1
      \<and> (btn_compress w \<longrightarrow> Compress \<notin> set (running w))
      \<and> (btn_clear_all w \<or> btn_clear_selected w \<longrightarrow> Delete \<notin> set (running w)))"

section \<open>Facts about traces\<close>

lemma trace_ok_progress:
  assumes "is_terminal t" and "b \<le> tot + 1"
  shows "trace_ok (map (\<lambda>k. Progress k tot (g k)) [a..<b] @ [t])"
proof -
  have 1: "list_all bounded (map (\<lambda>k. Progress k tot (g k)) [a..<b])"
    using assms(2) by (auto simp: list_all_iff)
  have "map current (map (\<lambda>k. Progress k tot (g k)) [a..<b]) = [a..<b]"
    by (simp add: map_idI)
  then have 2: "sorted (map current (map (\<lambda>k. Progress k tot (g k)) [a..<b]))"
    by simp
  show ?thesis
    unfolding trace_ok_def using assms(1) 1 2 by simp
qed

section \<open>Facts about the deletion loop\<close>

lemma estimate_defined:
  "0 < deleted \<Longrightarrow> 0 < tot \<Longrightarrow>
   estimate deleted tot elapsed =
     Inr (real deleted / real tot * 100,
          elapsed / real deleted * real_of_int (int tot - int deleted))"
  by (simp add: estimate_def py_truediv_def)

lemma deletion_loop_uncaught:
  "i + length files = tot \<Longrightarrow> uncaught (deletion_loop c clock tot i fs files) = None"
proof (induction files arbitrary: i fs)
  case Nil
  then show ?case by simp
next
  case (Cons p ps)
  then have "0 < tot" by auto
  with Cons show ?case
    by (auto simp: Let_def estimate_defined split: sum.splits)
qed

lemma os_remove_absent: "os_remove fs p = Inr fs' \<Longrightarrow> fs' = fs(p := None)"
  by (auto simp: os_remove_def split: option.splits file_status.splits)

lemma deletion_loop_disk_absent:
  "i + length files = tot \<Longrightarrow> fs q = None \<Longrightarrow>
   disk (deletion_loop c clock tot i fs files) q = None"
proof (induction files arbitrary: i fs)
  case Nil
  then show ?case by simp
next
  case (Cons p ps)
  then have "0 < tot" by auto
  with Cons show ?case
    by (auto simp: Let_def estimate_defined split: sum.splits dest!: os_remove_absent)
qed

text \<open>One iteration that removes its file: the signal it emits and what the rest adds.\<close>

lemma deletion_loop_step:
  assumes "\<not> cancelled c i" and "os_remove fs f = Inr fs'" and "0 < tot"
  shows "deletion_loop c clock tot i fs (f # rest) =
     (deletion_loop c clock tot (i + 1) fs' rest)
       \<lparr>signals :=
          Progress (i + 1) tot (Some (deletion_timing clock tot (i + 1)))
            # signals (deletion_loop c clock tot (i + 1) fs' rest),
        attempts := (f, None) # attempts (deletion_loop c clock tot (i + 1) fs' rest)\<rparr>"
  using assms by (simp add: Let_def estimate_defined deletion_timing_def)

lemma deletion_loop_failure:
  assumes "i + length files = tot"
    and "(p, Some e) \<in> set (attempts (deletion_loop c clock tot i fs files))"
  shows "\<exists>k<length files. files ! k = p
      \<and> attempts (deletion_loop c clock tot i fs files)
          = map (\<lambda>q. (q, None)) (take k files) @ [(p, Some e)]
      \<and> length (signals (deletion_loop c clock tot i fs files)) = k + 1
      \<and> list_all is_progress (butlast (signals (deletion_loop c clock tot i fs files)))
      \<and> last (signals (deletion_loop c clock tot i fs files)) = Error (DeleteFailed p e)
      \<and> (\<forall>q\<in>set (take k files). disk (deletion_loop c clock tot i fs files) q = None)"
  using assms
proof (induction files arbitrary: i fs)
  case Nil
  then show ?case by simp
next
  case (Cons f rest)
  then have tot: "0 < tot" by auto
  show ?case
  proof (cases "cancelled c i")
    case True
    with Cons.prems show ?thesis by simp
  next
    case nc: False
    show ?thesis
    proof (cases "os_remove fs f")
      case (Inl m)
      with nc Cons.prems show ?thesis by auto
    next
      case (Inr fs')
      let ?r = "deletion_loop c clock tot (i + 1) fs' rest"
      note step = deletion_loop_step[OF nc Inr tot, of clock rest]
      have mem: "(p, Some e) \<in> set (attempts ?r)"
        using Cons.prems(2) step by auto
      have len: "i + 1 + length rest = tot" using Cons.prems(1) by simp
      from Cons.IH[OF len mem] obtain k where k: "k < length rest" "rest ! k = p"
        "attempts ?r = map (\<lambda>q. (q, None)) (take k rest) @ [(p, Some e)]"
        "length (signals ?r) = k + 1"
        "list_all is_progress (butlast (signals ?r))"
        "last (signals ?r) = Error (DeleteFailed p e)"
        "\<forall>q\<in>set (take k rest). disk ?r q = None"
        by blast
      have fabs: "fs' f = None" using Inr os_remove_absent by fastforce
      have dabs: "disk ?r f = None" using len fabs by (rule deletion_loop_disk_absent)
      have ne: "signals ?r \<noteq> []" using k(4) by auto
      show ?thesis
        unfolding step
        apply (rule exI[of _ "Suc k"])
        using k dabs ne by (simp del: deletion_loop.simps)
    qed
  qed
qed

lemma deletion_loop_shape:
  assumes "i + length files = tot"
  shows "\<exists>m t. m \<le> length files
     \<and> signals (deletion_loop c clock tot i fs files)
         = map (\<lambda>k. Progress k tot (Some (deletion_timing clock tot k))) [i + 1..<i + 1 + m] @ [t]
     \<and> (t = Finished NoPayload \<or> (\<exists>p e. t = Error (DeleteFailed p e)))"
  using assms
proof (induction files arbitrary: i fs)
  case Nil
  then show ?case by simp
next
  case (Cons f rest)
  then have tot: "0 < tot" by auto
  show ?case
  proof (cases "cancelled c i")
    case True
    then show ?thesis by (intro exI[of _ 0]) simp
  next
    case nc: False
    show ?thesis
    proof (cases "os_remove fs f")
      case (Inl e)
      with nc show ?thesis by (intro exI[of _ 0]) simp
    next
      case (Inr fs')
      let ?r = "deletion_loop c clock tot (i + 1) fs' rest"
      note step = deletion_loop_step[OF nc Inr tot, of clock rest]
      have len: "i + 1 + length rest = tot" using Cons.prems by simp
      from Cons.IH[OF len] obtain m t where mt: "m \<le> length rest"
        "signals ?r = map (\<lambda>k. Progress k tot (Some (deletion_timing clock tot k))) [i + 1 + 1..<i + 1 + 1 + m] @ [t]"
        "t = Finished NoPayload \<or> (\<exists>p e. t = Error (DeleteFailed p e))"
        by blast
      have "[i + 1..<i + 1 + Suc m] = (i + 1) # [i + 1 + 1..<i + 1 + 1 + m]"
        by (simp add: upt_rec)
      then have "signals (deletion_loop c clock tot i fs (f # rest))
         = map (\<lambda>k. Progress k tot (Some (deletion_timing clock tot k))) [i + 1..<i + 1 + Suc m] @ [t]"
        unfolding step using mt(2) by (simp del: deletion_loop.simps)
      with mt(1,3) show ?thesis
        by (intro exI[of _ "Suc m"] exI[of _ t]) simp
    qed
  qed
qed

section \<open>Facts about the search loop\<close>


lemma scan_lines_uncancelled:
  "scan_lines lower rstrip None s t num ls = (matching_lines lower rstrip s num ls, t + length ls, False)"
  by (induction ls arbitrary: t num) (auto simp: cancelled_def)

lemma search_file_uncancelled:
  "fst (search_file lower rstrip None s t fs fl) = file_result lower rstrip s fs fl"
  by (cases fl)
    (auto simp: search_file_def file_result_def scan_lines_uncancelled split: text_file.splits)

lemma search_loop_results_uncancelled:
  "snd (search_loop lower rstrip None s fs tot i t files) = map (file_result lower rstrip s fs) files"
proof (induction files arbitrary: i t)
  case Nil
  then show ?case by simp
next
  case (Cons f rest)
  obtain res t' where sf: "search_file lower rstrip None s (t + 1) fs f = (res, t')" by fastforce
  then have "res = file_result lower rstrip s fs f"
    using search_file_uncancelled[of lower rstrip s "t + 1" fs f] by simp
  with Cons[of "i + 1" t'] sf show ?case
    by (auto simp: cancelled_def split: prod.splits)
qed

lemma search_loop_events:
  "search_loop lower rstrip c s fs tot i t files = (evs, rs) \<Longrightarrow>
     evs = map (\<lambda>k. Progress k tot None) [i + 1..<i + 1 + length rs]
     \<and> length rs \<le> length files"
proof (induction files arbitrary: i t evs rs)
  case Nil
  then show ?case by simp
next
  case (Cons f rest)
  show ?case
  proof (cases "cancelled c t")
    case True
    with Cons.prems show ?thesis by simp
  next
    case False
    obtain res t' where sf: "search_file lower rstrip c s (t + 1) fs f = (res, t')" by fastforce
    obtain evs' rs' where sl: "search_loop lower rstrip c s fs tot (i + 1) t' rest = (evs', rs')"
      by fastforce
    from Cons.IH[OF sl]
    have ih: "evs' = map (\<lambda>k. Progress k tot None) [i + 1 + 1..<i + 1 + 1 + length rs']"
      "length rs' \<le> length rest" by auto
    from Cons.prems False sf sl
    have e: "evs = Progress (i + 1) tot None # evs'" "rs = res # rs'"
      by auto
    have "[i + 1..<i + 1 + length rs] = (i + 1) # [i + 1 + 1..<i + 1 + 1 + length rs']"
      using e(2) by (simp add: upt_rec)
    with e ih show ?thesis by simp
  qed
qed

lemma search_run_shape:
  "\<exists>rs. length rs \<le> length files \<and>
     search_run lower rstrip c fs files s =
       map (\<lambda>k. Progress k (length files) None) [1..<1 + length rs]
         @ [Finished (SearchResults rs)]"
proof -
  obtain evs rs where sl: "search_loop lower rstrip c (lower s) fs (length files) 0 0 files = (evs, rs)"
    by fastforce
  from search_loop_events[OF sl] sl show ?thesis
    by (auto simp: search_run_def)
qed

lemma search_run_uncancelled:
  "search_run lower rstrip None fs files s =
     map (\<lambda>k. Progress k (length files) None) [1..<1 + length files]
       @ [Finished (SearchResults (map (file_result lower rstrip (lower s) fs) files))]"
proof -
  obtain evs rs where sl: "search_loop lower rstrip None (lower s) fs (length files) 0 0 files = (evs, rs)"
    by fastforce
  then have rs: "rs = map (file_result lower rstrip (lower s) fs) files"
    using search_loop_results_uncancelled[of lower rstrip "lower s" fs "length files" 0 0 files] by simp
  from search_loop_events[OF sl] sl rs show ?thesis
    by (auto simp: search_run_def)
qed

lemma results_of_progress:
  "results_of (map (\<lambda>k. Progress k tot None) ks @ [Finished (SearchResults rs)]) = rs"
  by (induction ks) auto

lemma search_run_trace_ok: "trace_ok (search_run lower rstrip c fs files s)"
proof -
  obtain rs where rs: "length rs \<le> length files"
     "search_run lower rstrip c fs files s =
       map (\<lambda>k. Progress k (length files) None) [1..<1 + length rs]
         @ [Finished (SearchResults rs)]"
    using search_run_shape by blast
  show ?thesis
    unfolding rs(2) by (rule trace_ok_progress) (use rs(1) in auto)
qed


lemma file_result_failed:
  "read_fails (fs (fst fl)) \<Longrightarrow>
   file_result lower rstrip s fs fl
     = (py_in s (lower (snd fl)), matching_lines lower rstrip s 1 (lines_of (fs (fst fl))))"
  by (cases fl) (auto simp: file_result_def split: text_file.splits)


lemma results_of_uncancelled:
  "results_of (search_run lower rstrip None fs files s) = map (file_result lower rstrip (lower s) fs) files"
  unfolding search_run_uncancelled by (rule results_of_progress)

section \<open>Facts about the compression run\<close>

lemma cancelled_mono: "cancelled c t \<Longrightarrow> t \<le> t' \<Longrightarrow> cancelled c t'"
  by (auto simp: cancelled_def split: option.splits)

lemma collect_shape:
  "collect c fut tot cnt js = (evs, r) \<Longrightarrow>
     \<exists>m\<le>length js. evs = map (\<lambda>k. Progress k tot None) [cnt + 1..<cnt + 1 + m]
       \<and> (case r of
            Inr rs \<Rightarrow> m = length js \<and> rs = map (\<lambda>j. projr (fut j)) js
                       \<and> (\<forall>j\<in>set js. \<exists>x. fut j = Inr x)
                       \<and> (js \<noteq> [] \<longrightarrow> \<not> cancelled c (cnt + length js - 1))
          | Inl msg \<Rightarrow> msg = Cancelled \<or> (\<exists>j\<in>set js. fut j = Inl msg))"
proof (induction js arbitrary: cnt evs r)
  case Nil
  then show ?case by auto
next
  case (Cons j js)
  show ?case
  proof (cases "cancelled c cnt")
    case True
    with Cons.prems show ?thesis by (intro exI[of _ 0]) auto
  next
    case nc: False
    show ?thesis
    proof (cases "fut j")
      case (Inl m)
      with nc Cons.prems show ?thesis by (intro exI[of _ 0]) auto
    next
      case (Inr x)
      obtain evs' r' where cl: "collect c fut tot (cnt + 1) js = (evs', r')" by fastforce
      from Cons.IH[OF cl] obtain m where m: "m \<le> length js"
        "evs' = map (\<lambda>k. Progress k tot None) [cnt + 1 + 1..<cnt + 1 + 1 + m]"
        "case r' of
            Inr rs \<Rightarrow> m = length js \<and> rs = map (\<lambda>j. projr (fut j)) js
                       \<and> (\<forall>j\<in>set js. \<exists>x. fut j = Inr x)
                       \<and> (js \<noteq> [] \<longrightarrow> \<not> cancelled c (cnt + 1 + length js - 1))
          | Inl msg \<Rightarrow> msg = Cancelled \<or> (\<exists>j\<in>set js. fut j = Inl msg)"
        by blast
      have upt: "[cnt + 1..<cnt + 1 + Suc m] = (cnt + 1) # [cnt + 1 + 1..<cnt + 1 + 1 + m]"
        by (simp add: upt_rec)
      have evs: "evs = Progress (cnt + 1) tot None # evs'"
        using Cons.prems nc Inr cl by (auto split: sum.splits)
      have r: "r = (case r' of Inl m \<Rightarrow> Inl m | Inr rs \<Rightarrow> Inr (x # rs))"
        using Cons.prems nc Inr cl by (auto split: sum.splits)
      show ?thesis
      proof (cases r')
        case (Inl msg)
        with m r evs upt show ?thesis
          by (intro exI[of _ "Suc m"]) auto
      next
        case (Inr rs)
        with m r evs upt nc \<open>fut j = Inr x\<close> show ?thesis
          by (intro exI[of _ "Suc m"]) (auto simp: cancelled_mono)
      qed
    qed
  qed
qed

lemma collect_cancelled:
  "js \<noteq> [] \<Longrightarrow> cancelled c (cnt + length js - 1) \<Longrightarrow> \<exists>m. snd (collect c fut tot cnt js) = Inl m"
proof -
  assume a: "js \<noteq> []" "cancelled c (cnt + length js - 1)"
  obtain evs r where cl: "collect c fut tot cnt js = (evs, r)" by fastforce
  from collect_shape[OF cl] a cl show ?thesis
    by (cases r) auto
qed

lemma write_entries_shape:
  "write_entries c zw t k es = (r, ws) \<Longrightarrow>
     \<exists>m\<le>length es. ws = take m es
       \<and> (case r of
            None \<Rightarrow> m = length es \<and> (es \<noteq> [] \<longrightarrow> \<not> cancelled c (t + length es - 1))
          | Some msg \<Rightarrow> m < length es \<and> (msg = Cancelled \<or> (\<exists>e k'. msg = OtherFailure e \<and> zw k' = Some e)))"
proof (induction es arbitrary: t k r ws)
  case Nil
  then show ?case by simp
next
  case (Cons a es)
  show ?case
  proof (cases "cancelled c t")
    case True
    with Cons.prems show ?thesis by (intro exI[of _ 0]) auto
  next
    case nc: False
    show ?thesis
    proof (cases "zw k")
      case (Some e)
      with nc Cons.prems show ?thesis by (intro exI[of _ 0]) auto
    next
      case None
      obtain r' ws' where w: "write_entries c zw (t + 1) (k + 1) es = (r', ws')" by fastforce
      from Cons.IH[OF w] obtain m where m: "m \<le> length es" "ws' = take m es"
        "case r' of
            None \<Rightarrow> m = length es \<and> (es \<noteq> [] \<longrightarrow> \<not> cancelled c (t + 1 + length es - 1))
          | Some msg \<Rightarrow> m < length es \<and> (msg = Cancelled \<or> (\<exists>e k'. msg = OtherFailure e \<and> zw k' = Some e))"
        by blast
      have rw: "r = r'" "ws = a # ws'" using Cons.prems nc None w by auto
      with m nc show ?thesis
        by (intro exI[of _ "Suc m"]) (auto split: option.splits simp: cancelled_mono)
    qed
  qed
qed

lemma compression_run_cases:
  assumes "collect (cancel_at env) (future_result env files) (length files) 0 (completion env)
            = (evs, r)"
  shows "(\<exists>m. r = Inl m \<and> compression_run env files zp
            = \<lparr>emitted = evs @ [Error m], archive = None\<rparr>)
     \<or> (\<exists>rs. r = Inr rs \<and> cancelled (cancel_at env) (length (completion env))
            \<and> compression_run env files zp
                = \<lparr>emitted = evs @ [Error Cancelled], archive = None\<rparr>)
     \<or> (\<exists>rs e. r = Inr rs \<and> \<not> cancelled (cancel_at env) (length (completion env))
            \<and> zip_open env = Some e
            \<and> compression_run env files zp
                = \<lparr>emitted = evs @ [Error (OtherFailure e)], archive = None\<rparr>)
     \<or> (\<exists>rs m written. r = Inr rs \<and> \<not> cancelled (cancel_at env) (length (completion env))
            \<and> zip_open env = None
            \<and> write_entries (cancel_at env) (zip_write env) (length (completion env) + 1) 0 rs
                = (Some m, written)
            \<and> compression_run env files zp
                = \<lparr>emitted = evs @ [Error m], archive = Some written\<rparr>)
     \<or> (\<exists>rs written. r = Inr rs \<and> \<not> cancelled (cancel_at env) (length (completion env))
            \<and> zip_open env = None
            \<and> write_entries (cancel_at env) (zip_write env) (length (completion env) + 1) 0 rs
                = (None, written)
            \<and> compression_run env files zp
                = \<lparr>emitted = evs @ [Finished (ArchivePath zp)], archive = Some written\<rparr>)"
proof (cases r)
  case (Inl m)
  with assms show ?thesis by (simp add: compression_run_def Let_def)
next
  case (Inr rs)
  show ?thesis
  proof (cases "cancelled (cancel_at env) (length (completion env))")
    case True
    with Inr assms show ?thesis by (simp add: compression_run_def Let_def)
  next
    case nc: False
    show ?thesis
    proof (cases "zip_open env")
      case (Some e)
      with nc Inr assms show ?thesis by (simp add: compression_run_def Let_def)
    next
      case None
      obtain ro written where w:
        "write_entries (cancel_at env) (zip_write env) (length (completion env) + 1) 0 rs
          = (ro, written)" by fastforce
      with None nc Inr assms show ?thesis
        by (cases ro) (simp_all add: compression_run_def Let_def)
    qed
  qed
qed

lemma compression_run_shape:
  "\<exists>m t. m \<le> length (completion env)
     \<and> emitted (compression_run env files zp)
         = map (\<lambda>k. Progress k (length files) None) [1..<1 + m] @ [t]
     \<and> is_terminal t"
proof -
  obtain evs r where cl:
    "collect (cancel_at env) (future_result env files) (length files) 0 (completion env)
      = (evs, r)" by fastforce
  from collect_shape[OF cl] obtain m where m: "m \<le> length (completion env)"
    "evs = map (\<lambda>k. Progress k (length files) None) [0 + 1..<0 + 1 + m]" by blast
  from compression_run_cases[OF cl, of zp] obtain t
    where "emitted (compression_run env files zp) = evs @ [t]" "is_terminal t"
    by (elim disjE exE conjE) simp_all
  with m show ?thesis by (intro exI[of _ m] exI[of _ t]) simp
qed

lemma compression_run_trace_ok:
  assumes "mset (completion env) = mset [0..<length files]"
  shows "trace_ok (emitted (compression_run env files zp))"
proof -
  have "size (mset (completion env)) = size (mset [0..<length files])"
    using assms by simp
  then have len: "length (completion env) = length files" by simp
  obtain m t where mt: "m \<le> length (completion env)"
    "emitted (compression_run env files zp)
         = map (\<lambda>k. Progress k (length files) None) [1..<1 + m] @ [t]"
    "is_terminal t"
    using compression_run_shape by blast
  show ?thesis
    unfolding mt(2) by (rule trace_ok_progress) (use mt(1,3) len in auto)
qed

section \<open>Bounds on cancelled runs, and the shape of a deletion run\<close>

lemma deletion_loop_error_attempt:
  "i + length files = tot \<Longrightarrow>
   Error (DeleteFailed p e) \<in> set (signals (deletion_loop c clock tot i fs files)) \<Longrightarrow>
   (p, Some e) \<in> set (attempts (deletion_loop c clock tot i fs files))"
proof (induction files arbitrary: i fs)
  case Nil
  then show ?case by simp
next
  case (Cons f rest)
  then have tot: "0 < tot" by auto
  show ?case
  proof (cases "cancelled c i")
    case True
    with Cons.prems show ?thesis by simp
  next
    case nc: False
    show ?thesis
    proof (cases "os_remove fs f")
      case (Inl m)
      with nc Cons.prems show ?thesis by simp
    next
      case (Inr fs')
      note step = deletion_loop_step[OF nc Inr tot, of clock rest]
      have len: "i + 1 + length rest = tot" using Cons.prems(1) by simp
      have "Error (DeleteFailed p e) \<in> set (signals (deletion_loop c clock tot (i + 1) fs' rest))"
        using Cons.prems(2) unfolding step by (simp del: deletion_loop.simps)
      from Cons.IH[OF len this] show ?thesis
        unfolding step by (simp del: deletion_loop.simps)
    qed
  qed
qed

lemma deletion_loop_attempts_bound:
  "i + length files = tot \<Longrightarrow>
   length (attempts (deletion_loop (Some k) clock tot i fs files)) \<le> k - i"
proof (induction files arbitrary: i fs)
  case Nil
  then show ?case by simp
next
  case (Cons f rest)
  then have tot: "0 < tot" by auto
  show ?case
  proof (cases "cancelled (Some k) i")
    case True
    then show ?thesis by simp
  next
    case nc: False
    then have ik: "i < k" by (simp add: cancelled_def)
    show ?thesis
    proof (cases "os_remove fs f")
      case (Inl m)
      with nc ik show ?thesis by simp
    next
      case (Inr fs')
      note step = deletion_loop_step[OF nc Inr tot, of clock rest]
      have len: "i + 1 + length rest = tot" using Cons.prems(1) by simp
      from Cons.IH[OF len, of fs'] ik show ?thesis
        unfolding step by (simp del: deletion_loop.simps)
    qed
  qed
qed

lemma scan_lines_reads: "scan_lines lower rstrip c s t num ls = (ms, t', b) \<Longrightarrow> t \<le> t'"
proof (induction ls arbitrary: t num ms t' b)
  case Nil
  then show ?case by simp
next
  case (Cons l ls)
  show ?case
  proof (cases "cancelled c t")
    case True
    with Cons.prems show ?thesis by simp
  next
    case False
    obtain ms1 t1 b1 where s1: "scan_lines lower rstrip c s (t + 1) (num + 1) ls = (ms1, t1, b1)"
      by (metis prod_cases3)
    from Cons.IH[OF s1] Cons.prems False s1 show ?thesis by auto
  qed
qed

lemma search_file_reads: "search_file lower rstrip c s t fs fl = (res, t') \<Longrightarrow> t \<le> t'"
  by (cases fl)
    (auto simp: search_file_def Let_def split: text_file.splits prod.splits if_splits
      dest: scan_lines_reads)

lemma search_loop_results_bound:
  "search_loop lower rstrip (Some k) s fs tot i t files = (evs, rs) \<Longrightarrow> length rs \<le> k - t"
proof (induction files arbitrary: i t evs rs)
  case Nil
  then show ?case by simp
next
  case (Cons f rest)
  show ?case
  proof (cases "cancelled (Some k) t")
    case True
    with Cons.prems show ?thesis by simp
  next
    case False
    then have tk: "t < k" by (simp add: cancelled_def)
    obtain res t' where sf: "search_file lower rstrip (Some k) s (t + 1) fs f = (res, t')" by fastforce
    obtain evs' rs' where sl: "search_loop lower rstrip (Some k) s fs tot (i + 1) t' rest = (evs', rs')"
      by fastforce
    from search_file_reads[OF sf] have t': "t + 1 \<le> t'" .
    from Cons.prems False sf sl have "rs = res # rs'" by auto
    with Cons.IH[OF sl] tk t' show ?thesis by simp
  qed
qed

lemma deletion_run_shape:
  "\<exists>m t. m \<le> length files
     \<and> signals (deletion_run c clock fs files)
         = map (\<lambda>k. Progress k (length files) (Some (deletion_timing clock (length files) k)))
             [1..<1 + m] @ [t]
     \<and> (t = Finished NoPayload \<or> (\<exists>p e. t = Error (DeleteFailed p e)))"
  using deletion_loop_shape[of 0 files "length files" c clock fs]
  by (simp add: deletion_run_def)

lemma deletion_run_trace_ok: "trace_ok (signals (deletion_run c clock fs files))"
proof -
  obtain m t where mt: "m \<le> length files"
    "signals (deletion_run c clock fs files)
         = map (\<lambda>k. Progress k (length files) (Some (deletion_timing clock (length files) k)))
             [1..<1 + m] @ [t]"
    "t = Finished NoPayload \<or> (\<exists>p e. t = Error (DeleteFailed p e))"
    using deletion_run_shape by blast
  show ?thesis
    unfolding mt(2) by (rule trace_ok_progress) (use mt(1,3) in auto)
qed

lemma list_all_progress_map: "list_all is_progress (map (\<lambda>k. Progress k tot (g k)) ks)"
  by (simp add: list_all_iff)

lemma filter_terminal_progress: "list_all is_progress ps \<Longrightarrow> filter is_terminal ps = []"
  by (induction ps) (auto elim: is_progress.elims)

section \<open>Why a compression run fails\<close>

lemma future_result_Inl:
  "future_result env files j = Inl m \<Longrightarrow>
     m = Cancelled \<or> (\<exists>e. reads env (fst (files ! j)) = Inl e \<and> m = ReadFailed (fst (files ! j)) e)"
  by (auto simp: future_result_def read_file_def split: if_splits sum.splits)

lemma future_result_Inr:
  "future_result env files j = Inr x \<Longrightarrow>
     \<not> reader_saw_cancel env j \<and> (\<exists>d. reads env (fst (files ! j)) = Inr d \<and> x = (snd (files ! j), d))"
  by (auto simp: future_result_def read_file_def split: if_splits sum.splits)

lemma compression_error_cause:
  assumes "collect (cancel_at env) (future_result env files) (length files) 0 (completion env)
            = (evs, Inl m)"
  shows "m = Cancelled
     \<or> (\<exists>j\<in>set (completion env). \<exists>e. reads env (fst (files ! j)) = Inl e
            \<and> m = ReadFailed (fst (files ! j)) e)"
proof -
  from collect_shape[OF assms]
  have "m = Cancelled \<or> (\<exists>j\<in>set (completion env). future_result env files j = Inl m)"
    by auto
  then show ?thesis using future_result_Inl by blast
qed

lemma compression_cancelled_errors:
  assumes "cancel_at env = Some k" and "k \<le> 2 * length (completion env)"
  shows "\<exists>ps m. emitted (compression_run env files zp) = ps @ [Error m]
     \<and> list_all is_progress ps
     \<and> (m = Cancelled
        \<or> (\<exists>j\<in>set (completion env). \<exists>e. reads env (fst (files ! j)) = Inl e
              \<and> m = ReadFailed (fst (files ! j)) e)
        \<or> (\<exists>e. m = OtherFailure e \<and> (zip_open env = Some e \<or> (\<exists>i. zip_write env i = Some e))))"
proof -
  let ?n = "length (completion env)"
  obtain evs r where cl:
    "collect (cancel_at env) (future_result env files) (length files) 0 (completion env)
      = (evs, r)" by fastforce
  from collect_shape[OF cl] obtain m0 where m0:
    "evs = map (\<lambda>k. Progress k (length files) None) [0 + 1..<0 + 1 + m0]"
    "case r of
            Inr rs \<Rightarrow> m0 = ?n \<and> rs = map (\<lambda>j. projr (future_result env files j)) (completion env)
                       \<and> (\<forall>j\<in>set (completion env). \<exists>x. future_result env files j = Inr x)
                       \<and> (completion env \<noteq> [] \<longrightarrow> \<not> cancelled (cancel_at env) (0 + ?n - 1))
          | Inl msg \<Rightarrow> msg = Cancelled \<or> (\<exists>j\<in>set (completion env). future_result env files j = Inl msg)"
    by blast
  have pr: "list_all is_progress evs" unfolding m0(1) by (rule list_all_progress_map)
  from compression_run_cases[OF cl, of zp] show ?thesis
  proof (elim disjE exE conjE)
    fix m assume a: "r = Inl m"
      "compression_run env files zp = \<lparr>emitted = evs @ [Error m], archive = None\<rparr>"
    from cl a(1) have "collect (cancel_at env) (future_result env files) (length files) 0 (completion env)
      = (evs, Inl m)" by simp
    from compression_error_cause[OF this] a(2) pr show ?thesis by auto
  next
    fix rs assume "compression_run env files zp = \<lparr>emitted = evs @ [Error Cancelled], archive = None\<rparr>"
    with pr show ?thesis by auto
  next
    fix rs e assume "zip_open env = Some e"
      "compression_run env files zp = \<lparr>emitted = evs @ [Error (OtherFailure e)], archive = None\<rparr>"
    with pr show ?thesis by auto
  next
    fix rs m written
    assume a: "write_entries (cancel_at env) (zip_write env) (?n + 1) 0 rs = (Some m, written)"
      "compression_run env files zp = \<lparr>emitted = evs @ [Error m], archive = Some written\<rparr>"
    from write_entries_shape[OF a(1)]
    have "m = Cancelled \<or> (\<exists>e k'. m = OtherFailure e \<and> zip_write env k' = Some e)" by auto
    with a(2) pr show ?thesis by auto
  next
    fix rs written
    assume a: "r = Inr rs" "\<not> cancelled (cancel_at env) ?n"
      "write_entries (cancel_at env) (zip_write env) (?n + 1) 0 rs = (None, written)"
    from a(1) m0(2) have lrs: "length rs = ?n" by simp
    from a(2) assms have nk: "?n < k" "0 < ?n" by (auto simp: cancelled_def)
    then have ne: "rs \<noteq> []" using lrs by auto
    from write_entries_shape[OF a(3)] ne
    have "\<not> cancelled (cancel_at env) (?n + 1 + length rs - 1)" by auto
    with assms lrs have False by (simp add: cancelled_def)
    then show ?thesis ..
  qed
qed

lemma collect_all_read:
  assumes "collect (cancel_at env) (future_result env files) (length files) 0 (completion env)
            = (evs, Inr rs)"
  shows "(\<forall>j\<in>set (completion env). \<not> reader_saw_cancel env j
            \<and> (\<exists>d. reads env (fst (files ! j)) = Inr d))
     \<and> rs = map (\<lambda>j. (snd (files ! j), projr (reads env (fst (files ! j))))) (completion env)
     \<and> list_all is_progress evs"
proof -
  from collect_shape[OF assms] obtain m where m:
    "evs = map (\<lambda>k. Progress k (length files) None) [0 + 1..<0 + 1 + m]"
    "rs = map (\<lambda>j. projr (future_result env files j)) (completion env)"
    "\<forall>j\<in>set (completion env). \<exists>x. future_result env files j = Inr x"
    by auto
  have a: "\<forall>j\<in>set (completion env). \<not> reader_saw_cancel env j
            \<and> (\<exists>d. reads env (fst (files ! j)) = Inr d)
            \<and> projr (future_result env files j)
                = (snd (files ! j), projr (reads env (fst (files ! j))))"
  proof
    fix j assume "j \<in> set (completion env)"
    with m(3) obtain x where x: "future_result env files j = Inr x" by blast
    from future_result_Inr[OF x] x
    show "\<not> reader_saw_cancel env j
            \<and> (\<exists>d. reads env (fst (files ! j)) = Inr d)
            \<and> projr (future_result env files j)
                = (snd (files ! j), projr (reads env (fst (files ! j))))"
      by auto
  qed
  then have "map (\<lambda>j. projr (future_result env files j)) (completion env)
      = map (\<lambda>j. (snd (files ! j), projr (reads env (fst (files ! j))))) (completion env)"
    by simp
  moreover have "list_all is_progress evs" unfolding m(1) by (rule list_all_progress_map)
  ultimately show ?thesis using a m(2) by simp
qed

lemma progress_not_finished: "list_all is_progress evs \<Longrightarrow> Finished x \<notin> set evs"
  by (auto simp: list_all_iff)

section \<open>What a cancelled run has done\<close>

lemma scan_lines_in_time:
  "t + length ls \<le> K \<Longrightarrow>
   scan_lines lower rstrip (Some K) s t num ls
     = (matching_lines lower rstrip s num ls, t + length ls, False)"
  by (induction ls arbitrary: t num) (auto simp: cancelled_def)

lemma scan_lines_cut_short:
  "t \<le> K \<Longrightarrow> K < t + length ls \<Longrightarrow>
   scan_lines lower rstrip (Some K) s t num ls
     = (matching_lines lower rstrip s num (take (K - t) ls), K + 1, True)"
proof (induction ls arbitrary: t num)
  case Nil
  then show ?case by simp
next
  case (Cons l ls)
  show ?case
  proof (cases "t = K")
    case True
    then show ?thesis by (simp add: cancelled_def)
  next
    case False
    with Cons.prems have lt: "t < K" by simp
    then have "K - t = Suc (K - (t + 1))" by simp
    moreover from Cons.IH[of "t + 1" "num + 1"] lt Cons.prems
    have "scan_lines lower rstrip (Some K) s (t + 1) (num + 1) ls
     = (matching_lines lower rstrip s (num + 1) (take (K - (t + 1)) ls), K + 1, True)" by simp
    ultimately show ?thesis using lt by (simp add: cancelled_def)
  qed
qed

lemma search_file_in_time:
  "t + lines_read (fs (fst fl)) \<le> K \<Longrightarrow>
   search_file lower rstrip (Some K) s t fs fl
     = (file_result lower rstrip s fs fl, t + lines_read (fs (fst fl)))"
  by (cases fl)
    (auto simp: search_file_def file_result_def scan_lines_in_time split: text_file.splits)

lemma search_file_cut_short:
  "t \<le> K \<Longrightarrow> K < t + lines_read (fs (fst fl)) \<Longrightarrow>
   search_file lower rstrip (Some K) s t fs fl
     = (interrupted_result lower rstrip s (K - t) fs fl, K + 1)"
  by (cases fl)
    (auto simp: search_file_def interrupted_result_def scan_lines_cut_short Let_def
      split: text_file.splits)

lemma search_loop_collected:
  "snd (search_loop lower rstrip (Some K) s fs tot i t files)
     = collected lower rstrip s fs (K - t) files"
proof (induction files arbitrary: i t)
  case Nil
  then show ?case by simp
next
  case (Cons f rest)
  let ?n = "lines_read (fs (fst f))"
  show ?case
  proof (cases "K \<le> t")
    case True
    then show ?thesis by (simp add: cancelled_def)
  next
    case False
    then have lt: "t < K" by simp
    then have nc: "\<not> cancelled (Some K) t" by (simp add: cancelled_def)
    show ?thesis
    proof (cases "?n < K - t")
      case True
      then have "t + 1 + ?n \<le> K" by simp
      from search_file_in_time[of "t + 1" fs f K lower rstrip s] this
      have sf: "search_file lower rstrip (Some K) s (t + 1) fs f
        = (file_result lower rstrip s fs f, t + 1 + ?n)" by simp
      have "K - (t + 1 + ?n) = K - t - 1 - ?n" by simp
      with Cons.IH[of "i + 1" "t + 1 + ?n"] sf nc True lt show ?thesis
        by (simp add: case_prod_beta)
    next
      case False
      then have "K < t + 1 + ?n" "t + 1 \<le> K" using lt by simp_all
      from search_file_cut_short[of "t + 1" K fs f lower rstrip s] this
      have sf: "search_file lower rstrip (Some K) s (t + 1) fs f
        = (interrupted_result lower rstrip s (K - (t + 1)) fs f, K + 1)" by simp
      have "snd (search_loop lower rstrip (Some K) s fs tot (i + 1) (K + 1) rest) = []"
        by (cases rest) (simp_all add: cancelled_def)
      with sf nc False lt show ?thesis
        by (simp add: case_prod_beta)
    qed
  qed
qed

lemma deletion_loop_signals_nonempty:
  "i + length files = tot \<Longrightarrow> signals (deletion_loop c clock tot i fs files) \<noteq> []"
  using deletion_loop_shape[of i files tot c clock fs] by auto

lemma deletion_loop_finished_attempts:
  "i + length files = tot \<Longrightarrow>
   last (signals (deletion_loop (Some K) clock tot i fs files)) = Finished NoPayload \<Longrightarrow>
   attempts (deletion_loop (Some K) clock tot i fs files)
     = map (\<lambda>q. (q, None)) (take (K - i) files)"
proof (induction files arbitrary: i fs)
  case Nil
  then show ?case by simp
next
  case (Cons f rest)
  then have tot: "0 < tot" by auto
  show ?case
  proof (cases "cancelled (Some K) i")
    case True
    then show ?thesis by (simp add: cancelled_def)
  next
    case nc: False
    then have ik: "i < K" by (simp add: cancelled_def)
    show ?thesis
    proof (cases "os_remove fs f")
      case (Inl m)
      with nc Cons.prems show ?thesis by simp
    next
      case (Inr fs')
      let ?r = "deletion_loop (Some K) clock tot (i + 1) fs' rest"
      note step = deletion_loop_step[OF nc Inr tot, of clock rest]
      have len: "i + 1 + length rest = tot" using Cons.prems(1) by simp
      have ne: "signals ?r \<noteq> []" using len by (rule deletion_loop_signals_nonempty)
      have "last (signals ?r) = Finished NoPayload"
        using Cons.prems(2) ne unfolding step by (simp del: deletion_loop.simps)
      from Cons.IH[OF len this]
      have a: "attempts ?r = map (\<lambda>q. (q, None)) (take (K - (i + 1)) rest)" .
      have "K - i = Suc (K - (i + 1))" using ik by simp
      with a show ?thesis unfolding step by (simp del: deletion_loop.simps)
    qed
  qed
qed






section \<open>Facts about the window\<close>

lemma count_list_remove1:
  "count_list (remove1 x xs) y = (if x = y \<and> x \<in> set xs then count_list xs y - 1 else count_list xs y)"
  by (induction xs) auto

lemma count_list_le1_remove1: "count_list xs x \<le> 1 \<Longrightarrow> x \<notin> set (remove1 x xs)"
  by (induction xs) (auto simp: count_list_0_iff split: if_splits)

lemma step_keeps_own_kind_excluded:
  "own_kind_excluded w \<Longrightarrow> own_kind_excluded (step w a)"
proof (cases a)
  case (Terminal k)
  assume "own_kind_excluded w"
  then show ?thesis
    unfolding Terminal own_kind_excluded_def
    by (cases k) (auto simp: count_list_remove1 count_list_le1_remove1 dest: notin_set_remove1)
qed (auto simp: own_kind_excluded_def start_search_def compress_files_def start_deletion_def
      count_list_0_iff)

lemma session_own_kind_excluded: "own_kind_excluded (session acts)"
proof -
  have "own_kind_excluded w \<Longrightarrow> own_kind_excluded (foldl step w acts)" for w
    by (induction acts arbitrary: w) (auto intro: step_keeps_own_kind_excluded)
  moreover have "own_kind_excluded initial"
    by (simp add: own_kind_excluded_def initial_def)
  ultimately show ?thesis by (simp add: session_def)
qed

section \<open>Properties of the deletion worker\<close>

text \<open>
  C10. Run on an empty list of paths, \<^verbatim>\<open>DeletionWorker.run\<close> emits the \<^verbatim>\<open>finished\<close> signal
  and nothing else: no progress signal, no error, no call of \<^verbatim>\<open>os.remove\<close>, no
  exception, and the disk is as it was. This holds whatever the flag and the clock are.
\<close>

theorem deletion_run_empty:
  "deletion_run c clock fs [] =
     \<lparr>signals = [Finished NoPayload], disk = fs, attempts = [], uncaught = None\<rparr>"
  by (simp add: deletion_run_def)

text \<open>
  C7. In a delete run, the first removal that fails stops the run at once. If the call of
  \<^verbatim>\<open>os.remove\<close> on \<open>p\<close> raised with text \<open>e\<close>, then \<open>p\<close> is the file at some index
  \<open>k\<close> of the input; the calls made are the \<open>k\<close> successful ones on the files before it
  and the failed one, and none after it; the run emitted \<open>k\<close> progress signals and then,
  last, the error signal naming \<open>p\<close> and \<open>e\<close>, which is its only terminal signal (so no
  \<^verbatim>\<open>finished\<close>); the files removed before the failure are absent from the disk the run
  leaves; and no exception escapes.
\<close>

theorem deletion_first_failure_stops:
  assumes "(p, Some e) \<in> set (attempts (deletion_run c clock fs files))"
  shows "\<exists>k<length files. files ! k = p
      \<and> attempts (deletion_run c clock fs files)
          = map (\<lambda>q. (q, None)) (take k files) @ [(p, Some e)]
      \<and> length (signals (deletion_run c clock fs files)) = k + 1
      \<and> last (signals (deletion_run c clock fs files)) = Error (DeleteFailed p e)
      \<and> filter is_terminal (signals (deletion_run c clock fs files))
          = [Error (DeleteFailed p e)]
      \<and> (\<forall>q\<in>set (take k files). disk (deletion_run c clock fs files) q = None)
      \<and> uncaught (deletion_run c clock fs files) = None"
proof -
  let ?r = "deletion_run c clock fs files"
  have len: "0 + length files = length files" by simp
  from deletion_loop_failure[OF len, of p e c clock fs] assms
  obtain k where k: "k < length files" "files ! k = p"
    "attempts ?r = map (\<lambda>q. (q, None)) (take k files) @ [(p, Some e)]"
    "length (signals ?r) = k + 1"
    "list_all is_progress (butlast (signals ?r))"
    "last (signals ?r) = Error (DeleteFailed p e)"
    "\<forall>q\<in>set (take k files). disk ?r q = None"
    unfolding deletion_run_def by blast
  have ne: "signals ?r \<noteq> []" using k(4) by auto
  then have "signals ?r = butlast (signals ?r) @ [last (signals ?r)]" by simp
  then have "filter is_terminal (signals ?r)
      = filter is_terminal (butlast (signals ?r)) @ filter is_terminal [last (signals ?r)]"
    by (metis filter_append)
  then have ft: "filter is_terminal (signals ?r) = [Error (DeleteFailed p e)]"
    using filter_terminal_progress[OF k(5)] k(6) by simp
  have un: "uncaught ?r = None"
    unfolding deletion_run_def using len by (rule deletion_loop_uncaught)
  from k ft un show ?thesis by blast
qed

text \<open>
  The scenario of the specification: three files, the removal of the second is denied.
  The first is gone, the third is still there.
\<close>

theorem deletion_first_failure_stops_witness:
  "(let r = deletion_run None real
              ((\<lambda>_. None)(''a'' \<mapsto> Deletable, ''b'' \<mapsto> Undeletable ''Permission denied'',
                 ''c'' \<mapsto> Deletable))
              [''a'', ''b'', ''c'']
    in (''b'', Some ''Permission denied'') \<in> set (attempts r)
       \<and> filter is_terminal (signals r) = [Error (DeleteFailed ''b'' ''Permission denied'')]
       \<and> attempts r = [(''a'', None), (''b'', Some ''Permission denied'')]
       \<and> disk r ''a'' = None \<and> disk r ''c'' = Some Deletable)"
proof -
  let ?fs = "(\<lambda>_. None)(''a'' \<mapsto> Deletable, ''b'' \<mapsto> Undeletable ''Permission denied'',
                 ''c'' \<mapsto> Deletable)"
  let ?r = "deletion_run None real ?fs [''a'', ''b'', ''c'']"
  have att: "attempts ?r = [(''a'', None), (''b'', Some ''Permission denied'')]"
    by (simp add: deletion_run_def os_remove_def cancelled_def estimate_def py_truediv_def)
  then have h: "(''b'', Some ''Permission denied'') \<in> set (attempts ?r)"
    by simp
  have dc: "disk ?r ''c'' = Some Deletable"
    by (simp add: deletion_run_def os_remove_def cancelled_def estimate_def py_truediv_def)
  from deletion_first_failure_stops[OF h] obtain k where k: "k < length [''a'', ''b'', ''c'']"
    "attempts ?r = map (\<lambda>q. (q, None)) (take k [''a'', ''b'', ''c'']) @ [(''b'', Some ''Permission denied'')]"
    "filter is_terminal (signals ?r) = [Error (DeleteFailed ''b'' ''Permission denied'')]"
    "\<forall>q\<in>set (take k [''a'', ''b'', ''c'']). disk ?r q = None"
    by blast
  from k(2) att have "length (take k [''a'', ''b'', ''c'']) = 1"
    by (metis One_nat_def length_Cons length_append_singleton length_map list.size(3) nat.inject)
  then have "k = 1" using k(1) by simp
  with k(4) have da: "disk ?r ''a'' = None" by simp
  show ?thesis
    unfolding Let_def using h k(3) att da dc by blast
qed

text \<open>
  C9, as amended. No delete run divides by zero. The estimate is computed only after a
  removal succeeded, with \<^verbatim>\<open>deleted = i + 1\<close>: no exception escapes a run, and every
  progress signal carries a count of at least 1. Were the count 0, the guard
  \<^verbatim>\<open>if deleted else 0\<close> would skip the division: the estimate at 0 is (0, 0).
\<close>

theorem deletion_never_divides_by_zero:
  "uncaught (deletion_run c clock fs files) = None
   \<and> (\<forall>ev\<in>set (signals (deletion_run c clock fs files)). is_progress ev \<longrightarrow> 1 \<le> current ev)
   \<and> (0 < tot \<longrightarrow> estimate 0 tot elapsed = Inr (0, 0))"
proof -
  have len: "0 + length files = length files" by simp
  have un: "uncaught (deletion_run c clock fs files) = None"
    unfolding deletion_run_def using len by (rule deletion_loop_uncaught)
  obtain m t where mt: "signals (deletion_run c clock fs files)
         = map (\<lambda>k. Progress k (length files) (Some (deletion_timing clock (length files) k)))
             [1..<1 + m] @ [t]"
    "t = Finished NoPayload \<or> (\<exists>p e. t = Error (DeleteFailed p e))"
    using deletion_run_shape by blast
  have pr: "\<forall>ev\<in>set (signals (deletion_run c clock fs files)). is_progress ev \<longrightarrow> 1 \<le> current ev"
    unfolding mt(1) using mt(2) by auto
  have "0 < tot \<longrightarrow> estimate 0 tot elapsed = Inr (0, 0)"
    by (simp add: estimate_def py_truediv_def)
  with un pr show ?thesis by blast
qed

text \<open>A run that removes one file: one progress signal with count 1, no exception.\<close>

theorem deletion_never_divides_by_zero_witness:
  "(let r = deletion_run None real ((\<lambda>_. None)(''a'' \<mapsto> Deletable)) [''a'']
    in Progress 1 1 (Some (100, 1, 0)) \<in> set (signals r)
       \<and> is_progress (Progress 1 1 (Some (100, 1, 0)))
       \<and> 1 \<le> current (Progress 1 1 (Some (100, 1, 0)))
       \<and> uncaught r = None
       \<and> (0::nat) < 1 \<and> estimate 0 1 5 = Inr (0, 0))"
proof -
  let ?r = "deletion_run None real ((\<lambda>_. None)(''a'' \<mapsto> Deletable)) [''a'']"
  have m: "Progress 1 1 (Some (100, 1, 0)) \<in> set (signals ?r)"
    by (simp add: deletion_run_def os_remove_def cancelled_def estimate_def py_truediv_def)
  from deletion_never_divides_by_zero[of None real "(\<lambda>_. None)(''a'' \<mapsto> Deletable)" "[''a'']" 1 5]
  have "uncaught ?r = None"
    "\<forall>ev\<in>set (signals ?r). is_progress ev \<longrightarrow> 1 \<le> current ev"
    "estimate 0 1 5 = Inr (0, 0)"
    by auto
  with m show ?thesis
    unfolding Let_def by auto
qed

text \<open>
  C9 as stated fails: there is no delete run, for any flag, clock, disk and list of
  paths, out of which \<^verbatim>\<open>ZeroDivisionError\<close> escapes.
\<close>

theorem deletion_divides_by_zero_refuted:
  "\<not> (\<exists>c clock fs files. uncaught (deletion_run c clock fs files) = Some ZeroDivisionError)"
proof
  assume "\<exists>c clock fs files. uncaught (deletion_run c clock fs files) = Some ZeroDivisionError"
  then obtain c clock fs files
    where u: "uncaught (deletion_run c clock fs files) = Some ZeroDivisionError" by blast
  have "0 + length files = length files" by simp
  then have "uncaught (deletion_loop c clock (length files) 0 fs files) = None"
    by (rule deletion_loop_uncaught)
  with u show False by (simp add: deletion_run_def)
qed

section \<open>Properties of every run\<close>

text \<open>
  C4. Every run of the three workers emits a well-formed trace (\<open>trace_ok\<close>): progress
  signals whose \<open>current\<close> values never decrease and never exceed \<open>total\<close>, then exactly
  one terminal signal, after which nothing is emitted. For the compression worker,
  \<^verbatim>\<open>as_completed\<close> yields every submitted future once: the completion order is a
  permutation of the task numbers. No exception escapes a delete run, so its terminal
  signal is always reached.
\<close>

theorem runs_emit_ordered_progress_then_one_terminal:
  assumes "mset (completion env) = mset [0..<length cfiles]"
  shows "trace_ok (search_run lower rstrip c sfs sfiles s)
     \<and> trace_ok (emitted (compression_run env cfiles zp))
     \<and> trace_ok (signals (deletion_run c' clock dfs dfiles))
     \<and> uncaught (deletion_run c' clock dfs dfiles) = None"
proof -
  have len: "0 + length dfiles = length dfiles" by simp
  have un: "uncaught (deletion_run c' clock dfs dfiles) = None"
    unfolding deletion_run_def using len by (rule deletion_loop_uncaught)
  show ?thesis
    using search_run_trace_ok compression_run_trace_ok[OF assms] deletion_run_trace_ok un
    by blast
qed

text \<open>
  One run of each worker: a search cancelled at its fourth read of the flag, a compression
  of two files whose reads complete in reverse order, a deletion whose second file is
  missing.
\<close>

theorem runs_emit_ordered_progress_then_one_terminal_witness:
  "mset [1, 0::nat] = mset [0..<length [(''a'', ''x''), (''b'', ''y'')]]
   \<and> trace_ok (search_run ascii_lower ascii_rstrip (Some 3) (\<lambda>p. Text [''hello'']) [(''a'', ''a.txt''), (''b'', ''b.txt'')] ''Hello'')
   \<and> trace_ok (emitted (compression_run
        \<lparr>reads = (\<lambda>p. Inr p), reader_saw_cancel = (\<lambda>_. False), completion = [1, 0],
         cancel_at = None, zip_open = None, zip_write = (\<lambda>_. None)\<rparr>
        [(''a'', ''x''), (''b'', ''y'')] ''out.zip''))
   \<and> trace_ok (signals (deletion_run None real ((\<lambda>_. None)(''a'' \<mapsto> Deletable)) [''a'', ''b'']))"
proof -
  have h: "mset (completion \<lparr>reads = (\<lambda>p. Inr p), reader_saw_cancel = (\<lambda>_. False), completion = [1, 0],
         cancel_at = None, zip_open = None, zip_write = (\<lambda>_. None)\<rparr>)
       = mset [0..<length [(''a'', ''x''), (''b'', ''y'')]]"
    by (simp add: upt_rec)
  from runs_emit_ordered_progress_then_one_terminal[OF h] h show ?thesis
    by simp
qed

text \<open>
  C1, as amended. A run whose flag is set still emits exactly one terminal signal, after
  its progress signals, but only the compression worker reports the cancellation as a
  failure. With the flag seen set from read number \<open>k\<close> on:
  \<^item> a search ends with \<^verbatim>\<open>finished\<close> (the class has no \<^verbatim>\<open>error\<close> signal), carrying the
    results collected so far, which are those of \<open>collected\<close>: one per file begun before
    the flag was seen, in the order of the input, with one progress signal each;
  \<^item> a deletion ends with \<^verbatim>\<open>finished\<close> after removing exactly the first \<open>k\<close> files (all
    of them when there are fewer), unless a removal failed before the flag was seen,
    which ends it with that error; it never attempts more than \<open>k\<close> removals;
  \<^item> a compression whose run reaches read \<open>k\<close> (there are at most \<open>2n + 1\<close> reads for
    \<open>n\<close> futures) ends with \<^verbatim>\<open>error\<close>, never with \<^verbatim>\<open>finished\<close>; the message is the
    cancellation text unless a read or the archive failed first.
\<close>

theorem cancelled_runs_terminal:
  assumes "cancel_at env = Some k" and "k \<le> 2 * length (completion env)"
  shows "(\<exists>ps. search_run lower rstrip (Some k) sfs sfiles s
              = ps @ [Finished (SearchResults (collected lower rstrip (lower s) sfs k sfiles))]
            \<and> list_all is_progress ps
            \<and> length ps = length (collected lower rstrip (lower s) sfs k sfiles)
            \<and> length (collected lower rstrip (lower s) sfs k sfiles) \<le> k
            \<and> length (collected lower rstrip (lower s) sfs k sfiles) \<le> length sfiles)
     \<and> (\<exists>ps t. signals (deletion_run (Some k) clock dfs dfiles) = ps @ [t]
            \<and> list_all is_progress ps
            \<and> ((t = Finished NoPayload
                  \<and> attempts (deletion_run (Some k) clock dfs dfiles)
                      = map (\<lambda>q. (q, None)) (take k dfiles))
               \<or> (\<exists>p e. t = Error (DeleteFailed p e)
                     \<and> (p, Some e) \<in> set (attempts (deletion_run (Some k) clock dfs dfiles))))
            \<and> length (attempts (deletion_run (Some k) clock dfs dfiles)) \<le> k)
     \<and> (\<exists>ps m. emitted (compression_run env cfiles zp) = ps @ [Error m]
            \<and> list_all is_progress ps
            \<and> (m = Cancelled
               \<or> (\<exists>j\<in>set (completion env). \<exists>e. reads env (fst (cfiles ! j)) = Inl e
                     \<and> m = ReadFailed (fst (cfiles ! j)) e)
               \<or> (\<exists>e. m = OtherFailure e
                     \<and> (zip_open env = Some e \<or> (\<exists>i. zip_write env i = Some e)))))"
proof (intro conjI)
  let ?col = "collected lower rstrip (lower s) sfs k sfiles"
  obtain evs rs where sl:
    "search_loop lower rstrip (Some k) (lower s) sfs (length sfiles) 0 0 sfiles = (evs, rs)"
    by fastforce
  from search_loop_events[OF sl]
  have ev: "evs = map (\<lambda>k. Progress k (length sfiles) None) [0 + 1..<0 + 1 + length rs]"
    "length rs \<le> length sfiles" by auto
  have pr: "list_all is_progress evs" unfolding ev(1) by (rule list_all_progress_map)
  have "length evs = length [0 + 1..<0 + 1 + length rs]" using ev(1) by (metis length_map)
  then have le: "length evs = length rs" by (simp del: upt_Suc)
  from search_loop_results_bound[OF sl] have bk: "length rs \<le> k" by simp
  have "rs = ?col"
    using search_loop_collected[of lower rstrip k "lower s" sfs "length sfiles" 0 0 sfiles] sl
    by simp
  with sl pr ev(2) le bk
  show "\<exists>ps. search_run lower rstrip (Some k) sfs sfiles s
              = ps @ [Finished (SearchResults ?col)]
            \<and> list_all is_progress ps \<and> length ps = length ?col
            \<and> length ?col \<le> k \<and> length ?col \<le> length sfiles"
    by (auto simp: search_run_def)
next
  let ?r = "deletion_run (Some k) clock dfs dfiles"
  obtain m t where mt:
    "signals ?r = map (\<lambda>k. Progress k (length dfiles) (Some (deletion_timing clock (length dfiles) k)))
             [1..<1 + m] @ [t]"
    "t = Finished NoPayload \<or> (\<exists>p e. t = Error (DeleteFailed p e))"
    using deletion_run_shape by blast
  have len: "0 + length dfiles = length dfiles" by simp
  have bound: "length (attempts ?r) \<le> k"
    using deletion_loop_attempts_bound[OF len, of k clock dfs] by (simp add: deletion_run_def)
  have "(t = Finished NoPayload \<and> attempts ?r = map (\<lambda>q. (q, None)) (take k dfiles))
     \<or> (\<exists>p e. t = Error (DeleteFailed p e) \<and> (p, Some e) \<in> set (attempts ?r))"
  proof (cases "t = Finished NoPayload")
    case True
    then have "last (signals (deletion_loop (Some k) clock (length dfiles) 0 dfs dfiles))
        = Finished NoPayload"
      using mt(1) by (simp add: deletion_run_def)
    from deletion_loop_finished_attempts[OF len this]
    have "attempts ?r = map (\<lambda>q. (q, None)) (take k dfiles)"
      by (simp add: deletion_run_def)
    with True show ?thesis by simp
  next
    case False
    with mt(2) obtain p e where t: "t = Error (DeleteFailed p e)" by blast
    then have "Error (DeleteFailed p e) \<in> set (signals ?r)" using mt(1) by simp
    then have "(p, Some e) \<in> set (attempts ?r)"
      unfolding deletion_run_def using len deletion_loop_error_attempt by blast
    with t show ?thesis by blast
  qed
  moreover have "list_all is_progress
     (map (\<lambda>k. Progress k (length dfiles) (Some (deletion_timing clock (length dfiles) k)))
        [1..<1 + m])"
    by (rule list_all_progress_map)
  ultimately
  show "\<exists>ps t. signals ?r = ps @ [t] \<and> list_all is_progress ps
            \<and> ((t = Finished NoPayload \<and> attempts ?r = map (\<lambda>q. (q, None)) (take k dfiles))
               \<or> (\<exists>p e. t = Error (DeleteFailed p e) \<and> (p, Some e) \<in> set (attempts ?r)))
            \<and> length (attempts ?r) \<le> k"
    using mt(1) bound by blast
next
  show "\<exists>ps m. emitted (compression_run env cfiles zp) = ps @ [Error m]
            \<and> list_all is_progress ps
            \<and> (m = Cancelled
               \<or> (\<exists>j\<in>set (completion env). \<exists>e. reads env (fst (cfiles ! j)) = Inl e
                     \<and> m = ReadFailed (fst (cfiles ! j)) e)
               \<or> (\<exists>e. m = OtherFailure e
                     \<and> (zip_open env = Some e \<or> (\<exists>i. zip_write env i = Some e))))"
    using assms by (rule compression_cancelled_errors)
qed

text \<open>
  The flag is set after three reads. The search has begun its first file and inspected
  two of its three lines: it ends with \<^verbatim>\<open>finished\<close>, carrying that one result. The
  deletion of one file ends with \<^verbatim>\<open>finished\<close>. The compression of two files ends with
  the cancellation error.
\<close>

theorem cancelled_runs_terminal_witness:
  "(let env = \<lparr>reads = (\<lambda>p. Inr p), reader_saw_cancel = (\<lambda>_. False), completion = [1, 0],
                cancel_at = Some 3, zip_open = None, zip_write = (\<lambda>_. None)\<rparr>;
        sfs = (\<lambda>_. Text [''x'', ''y'', ''xx'']);
        sfiles = [(''p'', ''n''), (''q'', ''m'')]
    in cancel_at env = Some 3 \<and> (3::nat) \<le> 2 * length (completion env)
       \<and> collected ascii_lower ascii_rstrip (ascii_lower ''X'') sfs 3 sfiles = [(True, [(1, ''x'')])]
       \<and> search_run ascii_lower ascii_rstrip (Some 3) sfs sfiles ''X''
           = [Progress 1 2 None, Finished (SearchResults [(True, [(1, ''x'')])])]
       \<and> last (signals (deletion_run (Some 3) real ((\<lambda>_. None)(''a'' \<mapsto> Deletable)) [''a'']))
           = Finished NoPayload
       \<and> last (emitted (compression_run env [(''a'', ''x''), (''b'', ''y'')] ''out.zip''))
           = Error Cancelled)"
proof -
  let ?env = "\<lparr>reads = (\<lambda>p. Inr p), reader_saw_cancel = (\<lambda>_. False), completion = [1, 0],
                cancel_at = Some 3, zip_open = None, zip_write = (\<lambda>_. None)\<rparr>"
  let ?sfs = "\<lambda>_::path. Text [''x'', ''y'', ''xx'']"
  let ?sfiles = "[(''p'', ''n''), (''q'', ''m'')]"
  let ?dfs = "(\<lambda>_. None)(''a'' \<mapsto> Deletable)"
  have h1: "cancel_at ?env = Some 3" by simp
  have h2: "(3::nat) \<le> 2 * length (completion ?env)" by simp
  note inst = cancelled_runs_terminal[OF h1 h2, of ascii_lower ascii_rstrip ?sfs ?sfiles "''X''"
      real ?dfs "[''a'']" "[(''a'', ''x''), (''b'', ''y'')]" "''out.zip''"]
  have lx: "ascii_lower ''X'' = ''x''" by code_simp
  have col: "collected ascii_lower ascii_rstrip (ascii_lower ''X'') ?sfs 3 ?sfiles
      = [(True, [(1, ''x'')])]"
    unfolding lx by code_simp
  from inst obtain ps where ps:
    "search_run ascii_lower ascii_rstrip (Some 3) ?sfs ?sfiles ''X''
       = ps @ [Finished (SearchResults (collected ascii_lower ascii_rstrip (ascii_lower ''X'') ?sfs 3 ?sfiles))]"
    "list_all is_progress ps"
    "length ps = length (collected ascii_lower ascii_rstrip (ascii_lower ''X'') ?sfs 3 ?sfiles)"
    by blast
  have s: "search_run ascii_lower ascii_rstrip (Some 3) ?sfs ?sfiles ''X''
           = [Progress 1 2 None, Finished (SearchResults [(True, [(1, ''x'')])])]"
    by code_simp
  have d: "last (signals (deletion_run (Some 3) real ?dfs [''a''])) = Finished NoPayload"
    by (simp add: deletion_run_def os_remove_def cancelled_def estimate_def py_truediv_def)
  have c: "last (emitted (compression_run ?env [(''a'', ''x''), (''b'', ''y'')] ''out.zip''))
           = Error Cancelled"
    by (simp add: compression_run_def future_result_def read_file_def cancelled_def)
  from h1 h2 col s d c ps show ?thesis unfolding Let_def by blast
qed

text \<open>
  C1 as stated fails: with the flag set before the first read, a search over one file and
  a deletion of one file both emit \<^verbatim>\<open>finished\<close> as their only signal, not a failure.
\<close>

theorem cancelled_search_and_deletion_finish:
  "search_run ascii_lower ascii_rstrip (Some 0) (\<lambda>_. Text [''x'']) [(''p'', ''n'')] ''x'' = [Finished (SearchResults [])]
   \<and> signals (deletion_run (Some 0) real ((\<lambda>_. None)(''a'' \<mapsto> Deletable)) [''a''])
       = [Finished NoPayload]"
  by (simp add: search_run_def deletion_run_def cancelled_def)

section \<open>Properties of the search worker\<close>




text \<open>
  C6, as amended. In a search that is not cancelled, take a file whose read raises,
  at \<^verbatim>\<open>open\<close> or while the lines are iterated. The exception is swallowed and the scan
  goes on: the run emits one progress signal per file and ends with \<^verbatim>\<open>finished\<close>,
  carrying one result per file. In the result of the failing file the matched flag is the
  name check alone, and the line matches are those of the lines read before the failure:
  none when the file cannot be opened. This holds whatever \<^verbatim>\<open>str.lower()\<close> and
  \<^verbatim>\<open>str.rstrip()\<close> do to a string.
\<close>

theorem search_read_failure_swallowed:
  assumes "i < length files" and "read_fails (fs (fst (files ! i)))"
  shows "(\<exists>rs. search_run lower rstrip None fs files s
             = map (\<lambda>k. Progress k (length files) None) [1..<1 + length files]
                 @ [Finished (SearchResults rs)]
           \<and> length rs = length files
           \<and> rs ! i = (py_in (lower s) (lower (snd (files ! i))),
                       matching_lines lower rstrip (lower s) 1
                         (lines_of (fs (fst (files ! i))))))
     \<and> (fs (fst (files ! i)) = CannotOpen \<longrightarrow>
           snd (result_at (results_of (search_run lower rstrip None fs files s)) i) = [])"
proof -
  let ?rs = "map (file_result lower rstrip (lower s) fs) files"
  have 1: "search_run lower rstrip None fs files s
             = map (\<lambda>k. Progress k (length files) None) [1..<1 + length files]
                 @ [Finished (SearchResults ?rs)]"
    by (rule search_run_uncancelled)
  have 2: "?rs ! i = (py_in (lower s) (lower (snd (files ! i))),
                       matching_lines lower rstrip (lower s) 1
                         (lines_of (fs (fst (files ! i)))))"
    using assms by (simp add: file_result_failed)
  have 3: "fs (fst (files ! i)) = CannotOpen \<longrightarrow>
           snd (result_at (results_of (search_run lower rstrip None fs files s)) i) = []"
    using assms 2 by (auto simp: results_of_uncancelled result_at_def)
  from 1 2 3 show ?thesis by auto
qed

text \<open>Two files, the first cannot be opened: no line match for it, and two results.\<close>

theorem search_read_failure_swallowed_witness:
  "(let files = [(''p'', ''n.bin''), (''q'', ''hello.txt'')];
        fs = (\<lambda>p. if p = ''p'' then CannotOpen else Text [''x''])
    in 0 < length files \<and> read_fails (fs (fst (files ! 0))) \<and> fs (fst (files ! 0)) = CannotOpen
       \<and> snd (result_at (results_of (search_run ascii_lower ascii_rstrip None fs files ''hello'')) 0) = []
       \<and> length (results_of (search_run ascii_lower ascii_rstrip None fs files ''hello'')) = 2)"
proof -
  let ?files = "[(''p'', ''n.bin''), (''q'', ''hello.txt'')]"
  let ?fs = "(\<lambda>p. if p = ''p'' then CannotOpen else Text [''x''])"
  have h1: "0 < length ?files" by simp
  have h2: "read_fails (?fs (fst (?files ! 0)))" by simp
  have h3: "?fs (fst (?files ! 0)) = CannotOpen" by simp
  note inst = search_read_failure_swallowed[of 0 ?files ?fs ascii_lower ascii_rstrip "''hello''", OF h1 h2]
  from inst h3
  have a: "snd (result_at (results_of (search_run ascii_lower ascii_rstrip None ?fs ?files ''hello'')) 0) = []"
    by blast
  from inst
  obtain rs where rs: "search_run ascii_lower ascii_rstrip None ?fs ?files ''hello''
             = map (\<lambda>k. Progress k (length ?files) None) [1..<1 + length ?files]
                 @ [Finished (SearchResults rs)]" "length rs = length ?files"
    by blast
  have "results_of (search_run ascii_lower ascii_rstrip None ?fs ?files ''hello'') = rs"
    unfolding rs(1) by (rule results_of_progress)
  with rs(2) have b: "length (results_of (search_run ascii_lower ascii_rstrip None ?fs ?files ''hello'')) = 2" by simp
  from h1 h2 h3 a b show ?thesis unfolding Let_def by blast
qed

text \<open>
  C6 as stated fails: a file whose first line matches and whose read raises further down
  keeps that line match in its result, with the matched flag unset.
\<close>

theorem broken_file_keeps_line_matches:
  "read_fails (Broken [''hello'', ''x''])
   \<and> search_run ascii_lower ascii_rstrip None (\<lambda>_. Broken [''hello'', ''x'']) [(''p'', ''n.bin'')] ''hello''
       = [Progress 1 1 None, Finished (SearchResults [(False, [(1, ''hello'')])])]"
  by (simp add: search_run_def search_file_def cancelled_def ascii_lower_def ascii_lower_char_def ascii_rstrip_def
      ascii_is_space_def)

section \<open>Properties of the compression worker\<close>




text \<open>
  C8. A compression run that ends with \<^verbatim>\<open>finished\<close> leaves an archive with one entry
  per input pair, in the order the reads completed. Every source was read, and the
  entries are, as a multiset, the pairs of each entry name with the bytes of its source:
  the same whatever the completion order. (The archive is the list of entries handed to
  \<^verbatim>\<open>writestr\<close>; the deflate coding of the bytes is the library's.)
\<close>

theorem archive_holds_every_source:
  assumes "mset (completion env) = mset [0..<length files]"
    and "Finished (ArchivePath zp) \<in> set (emitted (compression_run env files zp))"
  shows "\<exists>es. archive (compression_run env files zp) = Some es
      \<and> length es = length files
      \<and> es = map (\<lambda>j. (snd (files ! j), projr (reads env (fst (files ! j))))) (completion env)
      \<and> mset es = mset (expected_entries (reads env) files)
      \<and> (\<forall>i<length files. \<exists>d. reads env (fst (files ! i)) = Inr d)"
proof -
  let ?n = "length (completion env)"
  let ?R = "compression_run env files zp"
  let ?f = "\<lambda>j. (snd (files ! j), projr (reads env (fst (files ! j))))"
  obtain evs r where cl:
    "collect (cancel_at env) (future_result env files) (length files) 0 (completion env)
      = (evs, r)" by fastforce
  from collect_shape[OF cl] obtain m0 where
    "evs = map (\<lambda>k. Progress k (length files) None) [0 + 1..<0 + 1 + m0]" by blast
  then have pr: "list_all is_progress evs" by (simp add: list_all_progress_map)
  have nf: "Finished (ArchivePath zp) \<notin> set (evs @ [Error m])" for m
    using progress_not_finished[OF pr] by simp
  have "\<exists>rs written. r = Inr rs
      \<and> write_entries (cancel_at env) (zip_write env) (?n + 1) 0 rs = (None, written)
      \<and> ?R = \<lparr>emitted = evs @ [Finished (ArchivePath zp)], archive = Some written\<rparr>"
    using compression_run_cases[OF cl, of zp] assms(2) nf
    by (elim disjE exE conjE) auto
  then obtain rs written where s: "r = Inr rs"
    "write_entries (cancel_at env) (zip_write env) (?n + 1) 0 rs = (None, written)"
    "?R = \<lparr>emitted = evs @ [Finished (ArchivePath zp)], archive = Some written\<rparr>"
    by blast
  from write_entries_shape[OF s(2)] have w: "written = rs" by auto
  from collect_all_read[of env files evs rs] cl s(1)
  have rd: "\<forall>j\<in>set (completion env). \<exists>d. reads env (fst (files ! j)) = Inr d"
    and rs: "rs = map ?f (completion env)" by auto
  have "size (mset (completion env)) = size (mset [0..<length files])"
    using assms(1) by simp
  then have len: "?n = length files" by simp
  have "set (completion env) = set [0..<length files]"
    using assms(1) by (metis set_mset_mset)
  with rd have all: "\<forall>i<length files. \<exists>d. reads env (fst (files ! i)) = Inr d" by simp
  have "expected_entries (reads env) files
      = map (\<lambda>x. (snd x, projr (reads env (fst x)))) files"
    by (simp add: expected_entries_def case_prod_beta)
  also have "\<dots> = map (\<lambda>x. (snd x, projr (reads env (fst x)))) (map (\<lambda>j. files ! j) [0..<length files])"
    by (simp add: map_nth)
  also have "\<dots> = map ?f [0..<length files]" by simp
  finally have "mset (expected_entries (reads env) files) = image_mset ?f (mset [0..<length files])"
    by simp
  also have "\<dots> = image_mset ?f (mset (completion env))" using assms(1) by simp
  also have "\<dots> = mset rs" using rs by simp
  finally have ms: "mset rs = mset (expected_entries (reads env) files)" by simp
  from s(3) w rs len ms all show ?thesis by simp
qed

text \<open>Two files whose reads complete in reverse order: both entries are there.\<close>

theorem archive_holds_every_source_witness:
  "(let env = \<lparr>reads = (\<lambda>p. Inr (p @ ''!'')),
                reader_saw_cancel = (\<lambda>_. False), completion = [1, 0], cancel_at = None,
                zip_open = None, zip_write = (\<lambda>_. None)\<rparr>;
        files = [(''a'', ''x''), (''b'', ''y'')]
    in mset (completion env) = mset [0..<length files]
       \<and> Finished (ArchivePath ''out.zip'') \<in> set (emitted (compression_run env files ''out.zip''))
       \<and> archive (compression_run env files ''out.zip'') = Some [(''y'', ''b!''), (''x'', ''a!'')]
       \<and> mset [(''y'', ''b!''), (''x'', ''a!'')] = mset (expected_entries (reads env) files))"
proof -
  let ?env = "\<lparr>reads = (\<lambda>p. Inr (p @ ''!'')),
                reader_saw_cancel = (\<lambda>_. False), completion = [1, 0], cancel_at = None,
                zip_open = None, zip_write = (\<lambda>_. None)\<rparr>"
  let ?files = "[(''a'', ''x''), (''b'', ''y'')]"
  have h1: "mset (completion ?env) = mset [0..<length ?files]"
    by (simp add: upt_rec)
  have h2: "Finished (ArchivePath ''out.zip'')
      \<in> set (emitted (compression_run ?env ?files ''out.zip''))"
    by (simp add: compression_run_def future_result_def read_file_def cancelled_def)
  from archive_holds_every_source[OF h1 h2] obtain es where es:
    "archive (compression_run ?env ?files ''out.zip'') = Some es"
    "es = map (\<lambda>j. (snd (?files ! j), projr (reads ?env (fst (?files ! j))))) (completion ?env)"
    "mset es = mset (expected_entries (reads ?env) ?files)"
    by blast
  from es(2) have "es = [(''y'', ''b!''), (''x'', ''a!'')]" by simp
  with es(1,3) h1 h2 show ?thesis unfolding Let_def by blast
qed

section \<open>The window lets two workers run\<close>

text \<open>
  C2. The window does not keep the workers apart. Each starting slot disables only the
  buttons of its own kind, and the search input is never disabled. After a click on
  search and a click on compress, a search worker and a compression worker run together
  and \<^verbatim>\<open>active_worker\<close> refers to the second alone; after a search and a deletion have
  been started and the deletion has ended, the search still runs while \<^verbatim>\<open>active_worker\<close>
  is \<^verbatim>\<open>None\<close>; and the return key in the search input starts a second search while
  the first runs.
\<close>

theorem two_workers_at_once:
  "running (session [ClickSearch True, ClickCompress True]) = [Compress, Search]
   \<and> active_worker (session [ClickSearch True, ClickCompress True]) = Some Compress
   \<and> running (session [ClickSearch True, ClickDeleteAll True, Terminal Delete]) = [Search]
   \<and> active_worker (session [ClickSearch True, ClickDeleteAll True, Terminal Delete]) = None
   \<and> running (session [ClickSearch True, ReturnPressed True]) = [Search, Search]"
  by (simp add: session_def initial_def start_search_def compress_files_def start_deletion_def)

end
